theory Spec2Isabelle
  imports Main "HOL-Library.Word"
begin

unbundle bit_operations_syntax

section \<open>Pairwise comembership of cluster labels (rcpp_comembership.cpp)\<close>

subsection \<open>Labels: IEEE-754 binary64 values and the C++ comparison\<close>

text \<open>
  An \<^verbatim>\<open>Rcpp::NumericVector\<close> holds C++ \<^verbatim>\<open>double\<close>s.  The routine never does
  arithmetic on a label: it only compares two of them with \<^verbatim>\<open>==\<close>.  A double is
  therefore kept as its 64-bit pattern (sign, 11 exponent bits, 52 fraction bits), and
  \<open>double_eq\<close> is the comparison \<^verbatim>\<open>==\<close> of IEEE-754: a NaN is unequal to
  everything, the two zeros are equal to each other, and any other two values are equal
  exactly when their patterns are.
\<close>

type_synonym double = "64 word"

definition is_nan :: "double \<Rightarrow> bool" where
  "is_nan d \<longleftrightarrow>
     d AND 0x7FF0000000000000 = 0x7FF0000000000000 \<and> d AND 0x000FFFFFFFFFFFFF \<noteq> 0"

definition is_zero :: "double \<Rightarrow> bool" where
  "is_zero d \<longleftrightarrow> d = 0 \<or> d = 0x8000000000000000"

definition double_eq :: "double \<Rightarrow> double \<Rightarrow> bool" where
  "double_eq a b \<longleftrightarrow> \<not> is_nan a \<and> \<not> is_nan b \<and> (a = b \<or> (is_zero a \<and> is_zero b))"

text \<open>The two values the routine stores: \<^verbatim>\<open>0.0\<close> (the fill of a fresh vector) and \<^verbatim>\<open>1.0\<close>.\<close>

definition d_zero :: double where
  "d_zero = 0"

definition d_one :: double where
  "d_one = 0x3FF0000000000000"

subsection \<open>State of the routine\<close>

text \<open>
  The locals of \<^verbatim>\<open>rcpp_comembership\<close>: the label vector, the output vector and the
  running index.  \<^verbatim>\<open>unsigned long\<close> is a \<open>'w word\<close>: 64 bits on LP64 platforms, 32 bits
  on LLP64 ones (64-bit Windows), so the width stays a type parameter.  The field
  \<open>history\<close> is not a variable of the program: it records, in execution order, every
  entry into the body of the outer loop (\<open>RowStart i idx\<close>) and of the inner loop
  (\<open>Visit i j idx\<close>) with the values, read as natural numbers, that the loop
  variables and the running index have at that moment, so that statements about
  intermediate states can be made about the final state.

  \<^verbatim>\<open>operator[]\<close> of an Rcpp vector does no bounds check.  An access outside the vector
  is undefined behaviour in C++; here it is the error \<open>OutOfBounds\<close>, and the run
  stops there.
\<close>

datatype error = OutOfBounds

datatype event = RowStart nat nat | Visit nat nat nat

record 'a state =
  cluster_labels :: "double list"
  comembership :: "double list"
  idx_comembership :: 'a
  history :: "event list"

subsection \<open>The loops\<close>

text \<open>
  \<^verbatim>\<open>
  if (cluster_labels[i] == cluster_labels[j]) {
    comembership[idx_comembership] = 1;
  }
  idx_comembership++;
  \<close>
\<close>

definition inner_body :: "'w::len word \<Rightarrow> 'w word \<Rightarrow> 'w word state \<Rightarrow> error + 'w word state" where
  "inner_body i j s =
     (let s1 = s\<lparr>history := history s @ [Visit (unat i) (unat j) (unat (idx_comembership s))]\<rparr> in
      if unat i < length (cluster_labels s1) \<and> unat j < length (cluster_labels s1) then
        if double_eq (cluster_labels s1 ! unat i) (cluster_labels s1 ! unat j) then
          if unat (idx_comembership s1) < length (comembership s1) then
            Inr (s1\<lparr>comembership := (comembership s1)[unat (idx_comembership s1) := d_one],
                     idx_comembership := idx_comembership s1 + 1\<rparr>)
          else Inl OutOfBounds
        else Inr (s1\<lparr>idx_comembership := idx_comembership s1 + 1\<rparr>)
      else Inl OutOfBounds)"

text \<open>\<^verbatim>\<open>for (unsigned long j = i + 1; j < n; j++) { ... }\<close>, entered with the current \<open>j\<close>.\<close>

function inner_loop :: "'w::len word \<Rightarrow> 'w word \<Rightarrow> 'w word \<Rightarrow> 'w word state \<Rightarrow> error + 'w word state" where
  "inner_loop n i j s =
     (if j < n then
        (case inner_body i j s of
           Inl e \<Rightarrow> Inl e
         | Inr s' \<Rightarrow> inner_loop n i (j + 1) s')
      else Inr s)"
  by pat_completeness auto
termination
proof (relation "measure (\<lambda>(n, i, j, s). unat n - unat j)")
  fix n i j :: "'w::len word" and s x2 :: "'w word state"
  assume "j < n"
  then have "unat n - unat (j + 1) < unat n - unat j"
    by unat_arith
  then show "((n, i, j + 1, x2), (n, i, j, s)) \<in> measure (\<lambda>(n, i, j, s). unat n - unat j)"
    by simp
qed simp

definition outer_body :: "'w::len word \<Rightarrow> 'w word \<Rightarrow> 'w word state \<Rightarrow> error + 'w word state" where
  "outer_body n i s =
     inner_loop n i (i + 1) (s\<lparr>history := history s @ [RowStart (unat i) (unat (idx_comembership s))]\<rparr>)"

text \<open>\<^verbatim>\<open>for (unsigned long i = 0; i < n; i++) { ... }\<close>, entered with the current \<open>i\<close>.\<close>

function outer_loop :: "'w::len word \<Rightarrow> 'w word \<Rightarrow> 'w word state \<Rightarrow> error + 'w word state" where
  "outer_loop n i s =
     (if i < n then
        (case outer_body n i s of
           Inl e \<Rightarrow> Inl e
         | Inr s' \<Rightarrow> outer_loop n (i + 1) s')
      else Inr s)"
  by pat_completeness auto
termination
proof (relation "measure (\<lambda>(n, i, s). unat n - unat i)")
  fix n i :: "'w::len word" and s x2 :: "'w word state"
  assume "i < n"
  then have "unat n - unat (i + 1) < unat n - unat i"
    by unat_arith
  then show "((n, i + 1, x2), (n, i, s)) \<in> measure (\<lambda>(n, i, s). unat n - unat i)"
    by simp
qed simp

subsection \<open>The routine\<close>

text \<open>
  \<^verbatim>\<open>
  unsigned long n = cluster_labels.size();
  Rcpp::NumericVector comembership(n * (n-1) / 2);
  unsigned long idx_comembership = 0;
  \<close>
  The argument is taken as the numeric vector it has been converted to, a list of
  doubles.  Its size is converted to \<^verbatim>\<open>unsigned long\<close>; the length of the output is
  computed in \<^verbatim>\<open>unsigned long\<close> arithmetic, which wraps around; the quotient is always
  less than half the range, so it is the length R is asked for, and the fresh vector is
  filled with \<^verbatim>\<open>0.0\<close>.  Memory is taken to be available: the allocation does not
  fail.  \<open>run\<close> is the routine with its final state, \<open>rcpp_comembership\<close> what it
  returns.
\<close>

definition initial :: "'w::len itself \<Rightarrow> double list \<Rightarrow> 'w word state" where
  "initial w labels =
     (let n = (of_nat (length labels) :: 'w word) in
      \<lparr>cluster_labels = labels,
       comembership = replicate (unat (n * (n - 1) div 2)) d_zero,
       idx_comembership = 0,
       history = []\<rparr>)"

definition run :: "'w::len itself \<Rightarrow> double list \<Rightarrow> error + 'w word state" where
  "run w labels = outer_loop (of_nat (length labels)) 0 (initial w labels)"

definition rcpp_comembership :: "'w::len itself \<Rightarrow> double list \<Rightarrow> error + double list" where
  "rcpp_comembership w labels =
     (case run w labels of Inl e \<Rightarrow> Inl e | Inr s \<Rightarrow> Inr (comembership s))"

subsection \<open>Notions used in the statements\<close>

text \<open>
  \<open>n_of\<close> is the value of the program variable \<^verbatim>\<open>n\<close>: the size of the label vector
  converted to \<^verbatim>\<open>unsigned long\<close>.  \<open>wrap\<close> is the value an \<^verbatim>\<open>unsigned long\<close> holds after
  being incremented \<open>k\<close> times from 0.  An input length is \<open>representable\<close> when the
  product \<open>n * (n - 1)\<close>, which the routine computes first, fits in an \<^verbatim>\<open>unsigned long\<close>.
\<close>

definition n_of :: "'w::len itself \<Rightarrow> double list \<Rightarrow> nat" where
  "n_of w labels = unat (of_nat (length labels) :: 'w word)"

definition wrap :: "'w::len itself \<Rightarrow> nat \<Rightarrow> nat" where
  "wrap w k = k mod 2 ^ LENGTH('w)"

definition representable :: "'w::len itself \<Rightarrow> nat \<Rightarrow> bool" where
  "representable w n \<longleftrightarrow> n * (n - 1) < 2 ^ LENGTH('w)"

text \<open>
  The pairs \<open>i < j < n\<close> in the canonical order \<open>(0,1), (0,2), \<dots>, (0,n-1), (1,2), \<dots>,
  (n-2,n-1)\<close>, row by row; the closed form of the position of a pair in that order, and of
  the position at which row \<open>i\<close> begins.
\<close>

definition row :: "nat \<Rightarrow> nat \<Rightarrow> (nat \<times> nat) list" where
  "row n i = map (Pair i) [Suc i..<n]"

definition pairs :: "nat \<Rightarrow> (nat \<times> nat) list" where
  "pairs n = concat (map (row n) [0..<n])"

definition row_start :: "nat \<Rightarrow> nat \<Rightarrow> nat" where
  "row_start n i = i * n - i * (i + 1) div 2"

definition pair_index :: "nat \<Rightarrow> nat \<Rightarrow> nat \<Rightarrow> nat" where
  "pair_index n i j = i * n - i * (i + 1) div 2 + (j - i - 1)"


text \<open>The value that belongs at the position of a pair: \<^verbatim>\<open>1.0\<close> for comembers, \<^verbatim>\<open>0.0\<close> otherwise.\<close>

definition indicator :: "double list \<Rightarrow> nat \<times> nat \<Rightarrow> double" where
  "indicator labels p = (if double_eq (labels ! fst p) (labels ! snd p) then d_one else d_zero)"

text \<open>
  The routine returns a vector, that vector has an element at the linear index of the
  pair \<open>(i, j)\<close>, and the element is \<open>v\<close>.
\<close>

definition pair_element_is :: "'w::len itself \<Rightarrow> double list \<Rightarrow> nat \<Rightarrow> nat \<Rightarrow> double \<Rightarrow> bool" where
  "pair_element_is w labels i j v =
     (case rcpp_comembership w labels of
        Inl e \<Rightarrow> False
      | Inr out \<Rightarrow>
          pair_index (length labels) i j < length out \<and>
          out ! pair_index (length labels) i j = v)"

text \<open>
  Readings of a history: the pairs visited by the inner loop, in order; the value of the
  running index at each of those visits; and the rows entered by the outer loop, each
  with the value of the running index on entry.
\<close>

fun visited :: "event list \<Rightarrow> (nat \<times> nat) list" where
  "visited [] = []"
| "visited (RowStart i c # es) = visited es"
| "visited (Visit i j c # es) = (i, j) # visited es"

fun counters :: "event list \<Rightarrow> nat list" where
  "counters [] = []"
| "counters (RowStart i c # es) = counters es"
| "counters (Visit i j c # es) = c # counters es"

fun row_starts :: "event list \<Rightarrow> (nat \<times> nat) list" where
  "row_starts [] = []"
| "row_starts (RowStart i c # es) = (i, c) # row_starts es"
| "row_starts (Visit i j c # es) = row_starts es"

text \<open>
  Label values used in the examples: \<^verbatim>\<open>2.0\<close> and a quiet NaN.
\<close>

definition d_two :: double where
  "d_two = 0x4000000000000000"

definition qnan :: double where
  "qnan = 0x7FF8000000000000"

text \<open>
  A value is \<open>ordinary\<close> when it is neither a NaN nor the negative zero: on ordinary
  values \<^verbatim>\<open>==\<close> is equality of the bits.
\<close>

definition ordinary :: "double \<Rightarrow> bool" where
  "ordinary d \<longleftrightarrow> \<not> is_nan d \<and> d \<noteq> 0x8000000000000000"

text \<open>A relabelling that exchanges \<^verbatim>\<open>1.0\<close> and \<^verbatim>\<open>2.0\<close>.\<close>

definition swap12 :: "double \<Rightarrow> double" where
  "swap12 d = (if d = d_one then d_two else if d = d_two then d_one else d)"

text \<open>\<open>m\<close> NaN labels followed by two labels \<^verbatim>\<open>1.0\<close>: only the last pair is a comember.\<close>

definition nan_then_pair :: "nat \<Rightarrow> double list" where
  "nan_then_pair m = replicate m qnan @ [d_one, d_one]"

text \<open>
  The example of the specification, the labels \<open>1, 2, 1, 2\<close>, and the state in which the
  routine ends on it with a 64-bit \<^verbatim>\<open>unsigned long\<close>.
\<close>

definition example_labels :: "double list" where
  "example_labels = [d_one, d_two, d_one, d_two]"

definition example_final :: "64 word state" where
  "example_final =
     \<lparr>cluster_labels = [d_one, d_two, d_one, d_two],
      comembership = [d_zero, d_one, d_zero, d_zero, d_one, d_zero],
      idx_comembership = 6,
      history =
        [RowStart 0 0, Visit 0 1 0, Visit 0 2 1, Visit 0 3 2,
         RowStart 1 3, Visit 1 2 3, Visit 1 3 4,
         RowStart 2 5, Visit 2 3 5,
         RowStart 3 6]\<rparr>"

subsection \<open>Notions used in the proofs\<close>

text \<open>
  Running a body over a list of indices and stopping at the first error; the events of
  one row and of a list of rows, given the running index at their start; the output
  vector holds zeros and ones only, and each one is accounted for by a visit of a pair of
  equal labels at that index; a state after its labels have been renamed.
\<close>

fun fold_err :: "('a \<Rightarrow> 's \<Rightarrow> error + 's) \<Rightarrow> 'a list \<Rightarrow> 's \<Rightarrow> error + 's" where
  "fold_err f [] s = Inr s"
| "fold_err f (x # xs) s = (case f x s of Inl e \<Rightarrow> Inl e | Inr s' \<Rightarrow> fold_err f xs s')"

definition lift :: "('s \<Rightarrow> 's) \<Rightarrow> error + 's \<Rightarrow> error + 's" where
  "lift g r = (case r of Inl e \<Rightarrow> Inl e | Inr s \<Rightarrow> Inr (g s))"

fun visits :: "nat \<Rightarrow> nat list \<Rightarrow> 'w::len word \<Rightarrow> event list" where
  "visits i [] c = []"
| "visits i (j # js) c = Visit i j (unat c) # visits i js (c + 1)"

fun rows :: "nat \<Rightarrow> nat list \<Rightarrow> 'w::len word \<Rightarrow> event list" where
  "rows n [] c = []"
| "rows n (i # is) c =
     RowStart i (unat c) # visits i [Suc i..<n] c @ rows n is (c + of_nat (n - Suc i))"

definition justified :: "double list \<Rightarrow> 'a state \<Rightarrow> bool" where
  "justified labels s \<longleftrightarrow>
     (\<forall>k<length (comembership s).
        comembership s ! k = d_zero \<or>
        comembership s ! k = d_one \<and>
        (\<exists>i j. Visit i j k \<in> set (history s) \<and> double_eq (labels ! i) (labels ! j)))"

definition relabel :: "(double \<Rightarrow> double) \<Rightarrow> 'a state \<Rightarrow> 'a state" where
  "relabel f s = s\<lparr>cluster_labels := map f (cluster_labels s)\<rparr>"

declare inner_loop.simps [simp del] outer_loop.simps [simp del]

section \<open>The loops as folds over index ranges\<close>

lemma unat_inc: "j < n \<Longrightarrow> unat (j + 1) = Suc (unat j)" for j n :: "'w::len word"
  by unat_arith

lemma unat_of_nat_below: "k < unat n \<Longrightarrow> unat (of_nat k :: 'w word) = k" for n :: "'w::len word"
  by (metis less_trans of_nat_inverse unsigned_less)

lemma of_nat_below: "k < unat n \<Longrightarrow> (of_nat k :: 'w word) < n" for n :: "'w::len word"
  by (simp add: word_less_nat_alt unat_of_nat_below)

lemma inner_loop_fold:
  "inner_loop n i j s = fold_err (inner_body i) (map of_nat [unat j..<unat n]) s"
proof (induction n i j s rule: inner_loop.induct)
  case (1 n i j s)
  show ?case
  proof (cases "j < n")
    case True
    then have lt: "unat j < unat n"
      by (simp add: word_less_nat_alt)
    then have upt: "[unat j..<unat n] = unat j # [unat (j + 1)..<unat n]"
      using True by (simp add: upt_conv_Cons unat_inc)
    show ?thesis
    proof (cases "inner_body i j s")
      case (Inl e)
      with True upt show ?thesis
        by (simp add: inner_loop.simps [of n i j s])
    next
      case (Inr s')
      with True upt "1.IH" [OF True Inr] show ?thesis
        by (simp add: inner_loop.simps [of n i j s])
    qed
  next
    case False
    then have "unat n \<le> unat j"
      by (simp add: word_less_nat_alt)
    with False show ?thesis
      by (simp add: inner_loop.simps [of n i j s])
  qed
qed

lemma outer_loop_fold:
  "outer_loop n i s = fold_err (outer_body n) (map of_nat [unat i..<unat n]) s"
proof (induction n i s rule: outer_loop.induct)
  case (1 n i s)
  show ?case
  proof (cases "i < n")
    case True
    then have lt: "unat i < unat n"
      by (simp add: word_less_nat_alt)
    then have upt: "[unat i..<unat n] = unat i # [unat (i + 1)..<unat n]"
      using True by (simp add: upt_conv_Cons unat_inc)
    show ?thesis
    proof (cases "outer_body n i s")
      case (Inl e)
      with True upt show ?thesis
        by (simp add: outer_loop.simps [of n i s])
    next
      case (Inr s')
      with True upt "1.IH" [OF True Inr] show ?thesis
        by (simp add: outer_loop.simps [of n i s])
    qed
  next
    case False
    then have "unat n \<le> unat i"
      by (simp add: word_less_nat_alt)
    with False show ?thesis
      by (simp add: outer_loop.simps [of n i s])
  qed
qed

lemma outer_body_fold:
  assumes "k < unat n"
  shows "outer_body n (of_nat k) s =
    fold_err (inner_body (of_nat k)) (map of_nat [Suc k..<unat n])
      (s\<lparr>history := history s @ [RowStart k (unat (idx_comembership s))]\<rparr>)"
proof -
  have "unat ((of_nat k :: 'a word) + 1) = Suc k"
    using assms unat_inc [OF of_nat_below [OF assms]] by (simp add: unat_of_nat_below)
  then show ?thesis
    using assms by (simp add: outer_body_def inner_loop_fold unat_of_nat_below)
qed

lemma fold_err_append:
  "fold_err f (xs @ ys) s = (case fold_err f xs s of Inl e \<Rightarrow> Inl e | Inr s' \<Rightarrow> fold_err f ys s')"
  by (induction xs arbitrary: s) (auto split: sum.splits)

lemma inner_body_Inr:
  assumes "inner_body i j s = Inr s'"
  shows "cluster_labels s' = cluster_labels s"
    and "length (comembership s') = length (comembership s)"
    and "idx_comembership s' = idx_comembership s + 1"
    and "history s' = history s @ [Visit (unat i) (unat j) (unat (idx_comembership s))]"
  using assms by (auto simp: inner_body_def Let_def split: if_splits)

lemma unat_of_nat_small: "k < 2 ^ LENGTH('w) \<Longrightarrow> unat (of_nat k :: 'w::len word) = k"
  by (simp add: unat_of_nat)

lemma inner_fold_frame:
  fixes s :: "'w::len word state"
  assumes "fold_err (inner_body (of_nat i)) (map of_nat js) s = Inr s'"
    and "i < 2 ^ LENGTH('w)" and "\<forall>j\<in>set js. j < 2 ^ LENGTH('w)"
  shows "cluster_labels s' = cluster_labels s \<and>
         length (comembership s') = length (comembership s) \<and>
         idx_comembership s' = idx_comembership s + of_nat (length js) \<and>
         history s' = history s @ visits i js (idx_comembership s)"
  using assms
proof (induction js arbitrary: s)
  case Nil
  then show ?case by simp
next
  case (Cons j js)
  from Cons.prems(1) obtain t where
    t: "inner_body (of_nat i :: 'w word) (of_nat j) s = Inr t"
    and rest: "fold_err (inner_body (of_nat i)) (map of_nat js) t = Inr s'"
    by (auto split: sum.splits)
  have ui: "unat (of_nat i :: 'w word) = i" and uj: "unat (of_nat j :: 'w word) = j"
    using Cons.prems by (simp_all add: unat_of_nat_small)
  from Cons.IH [OF rest] Cons.prems inner_body_Inr [OF t] ui uj show ?case
    by (simp add: algebra_simps)
qed

lemma outer_fold_frame:
  fixes s :: "'w::len word state" and n :: "'w word"
  assumes "fold_err (outer_body n) (map of_nat is) s = Inr s'"
    and "\<forall>i\<in>set is. i < unat n"
  shows "cluster_labels s' = cluster_labels s \<and>
         length (comembership s') = length (comembership s) \<and>
         idx_comembership s' = idx_comembership s + of_nat (sum_list (map (\<lambda>i. unat n - Suc i) is)) \<and>
         history s' = history s @ rows (unat n) is (idx_comembership s)"
  using assms
proof (induction "is" arbitrary: s)
  case Nil
  then show ?case by simp
next
  case (Cons i "is")
  from Cons.prems(1) obtain t where
    t: "outer_body n (of_nat i) s = Inr t"
    and rest: "fold_err (outer_body n) (map of_nat is) t = Inr s'"
    by (auto split: sum.splits)
  have i: "i < unat n"
    using Cons.prems by simp
  have small: "i < 2 ^ LENGTH('w)" "\<forall>j\<in>set [Suc i..<unat n]. j < 2 ^ LENGTH('w)"
    using i unsigned_less [of n] by (auto intro: less_trans)
  let ?s0 = "s\<lparr>history := history s @ [RowStart i (unat (idx_comembership s))]\<rparr>"
  from t have "fold_err (inner_body (of_nat i)) (map of_nat [Suc i..<unat n]) ?s0 = Inr t"
    by (simp add: outer_body_fold [OF i])
  from inner_fold_frame [OF this small] have
    "cluster_labels t = cluster_labels s"
    "length (comembership t) = length (comembership s)"
    "idx_comembership t = idx_comembership s + of_nat (unat n - Suc i)"
    "history t = history s @ RowStart i (unat (idx_comembership s)) # visits i [Suc i..<unat n] (idx_comembership s)"
    by simp_all
  with Cons.IH [OF rest] Cons.prems(2) show ?case
    by (simp add: algebra_simps)
qed

lemma run_frame:
  fixes s :: "'w::len word state"
  assumes "run TYPE('w) labels = Inr s"
  shows "cluster_labels s = labels"
    and "length (comembership s) = unat ((of_nat (length labels) :: 'w word) * (of_nat (length labels) - 1) div 2)"
    and "history s = rows (unat (of_nat (length labels) :: 'w word)) [0..<unat (of_nat (length labels) :: 'w word)] (0 :: 'w word)"
proof -
  let ?n = "of_nat (length labels) :: 'w word"
  from assms have "fold_err (outer_body ?n) (map of_nat [0..<unat ?n]) (initial TYPE('w) labels) = Inr s"
    by (simp add: run_def outer_loop_fold)
  from outer_fold_frame [OF this] show
    "cluster_labels s = labels"
    "length (comembership s) = unat (?n * (?n - 1) div 2)"
    "history s = rows (unat ?n) [0..<unat ?n] (0 :: 'w word)"
    by (simp_all add: initial_def Let_def)
qed

lemma unat_succ_small:
  "unat c + 1 < 2 ^ LENGTH('w) \<Longrightarrow> unat (c + 1) = Suc (unat c)" for c :: "'w::len word"
  using unat_add_lem [of c 1] by simp

lemma update_first_zero:
  "0 < r \<Longrightarrow> (P @ replicate r z)[length P := v] = (P @ [v]) @ replicate (r - 1) z"
  by (cases r) (simp_all add: list_update_append)

lemma inner_body_ok:
  fixes s :: "'w::len word state"
  assumes "i < length (cluster_labels s)" "j < length (cluster_labels s)"
    and "i < 2 ^ LENGTH('w)" "j < 2 ^ LENGTH('w)"
    and "comembership s = P @ replicate r d_zero"
    and "unat (idx_comembership s) = length P"
    and "0 < r" "length P + r < 2 ^ LENGTH('w)"
  shows "\<exists>t. inner_body (of_nat i) (of_nat j) s = Inr t \<and>
           cluster_labels t = cluster_labels s \<and>
           comembership t = (P @ [indicator (cluster_labels s) (i, j)]) @ replicate (r - 1) d_zero \<and>
           unat (idx_comembership t) = Suc (length P)"
proof -
  have ui: "unat (of_nat i :: 'w word) = i" and uj: "unat (of_nat j :: 'w word) = j"
    using assms by (simp_all add: unat_of_nat_small)
  have "unat (idx_comembership s) + 1 < 2 ^ LENGTH('w)"
    using assms by simp
  then have inc: "unat (idx_comembership s + 1) = Suc (length P)"
    using assms by (simp add: unat_succ_small)
  have zero: "P @ replicate r d_zero = (P @ [d_zero]) @ replicate (r - 1) d_zero"
    using \<open>0 < r\<close> by (cases r) simp_all
  show ?thesis
    using assms ui uj inc zero update_first_zero [of r P d_zero d_one]
    by (simp add: inner_body_def Let_def indicator_def)
qed

lemma inner_fold_ok:
  fixes s :: "'w::len word state"
  assumes "i < length (cluster_labels s)" "\<forall>j\<in>set js. j < length (cluster_labels s)"
    and "i < 2 ^ LENGTH('w)" "\<forall>j\<in>set js. j < 2 ^ LENGTH('w)"
    and "comembership s = P @ replicate r d_zero"
    and "unat (idx_comembership s) = length P"
    and "length js \<le> r" "length P + r < 2 ^ LENGTH('w)"
  shows "\<exists>s'. fold_err (inner_body (of_nat i)) (map of_nat js) s = Inr s' \<and>
           comembership s' =
             P @ map (\<lambda>j. indicator (cluster_labels s) (i, j)) js @ replicate (r - length js) d_zero \<and>
           unat (idx_comembership s') = length P + length js"
  using assms
proof (induction js arbitrary: s P r)
  case Nil
  then show ?case by simp
next
  case (Cons j js)
  from Cons.prems have r: "0 < r"
    by simp
  from inner_body_ok [of i s j P r] Cons.prems r obtain t where
    t: "inner_body (of_nat i :: 'w word) (of_nat j) s = Inr t"
    and lab: "cluster_labels t = cluster_labels s"
    and com: "comembership t = (P @ [indicator (cluster_labels s) (i, j)]) @ replicate (r - 1) d_zero"
    and idx: "unat (idx_comembership t) = length (P @ [indicator (cluster_labels s) (i, j)])"
    by auto
  have "\<exists>s'. fold_err (inner_body (of_nat i)) (map of_nat js) t = Inr s' \<and>
           comembership s' =
             (P @ [indicator (cluster_labels s) (i, j)]) @
             map (\<lambda>j. indicator (cluster_labels t) (i, j)) js @ replicate (r - 1 - length js) d_zero \<and>
           unat (idx_comembership s') = length (P @ [indicator (cluster_labels s) (i, j)]) + length js"
  proof (rule Cons.IH)
    show "i < length (cluster_labels t)" "\<forall>j\<in>set js. j < length (cluster_labels t)"
      using Cons.prems lab by simp_all
    show "i < 2 ^ LENGTH('w)" "\<forall>j\<in>set js. j < 2 ^ LENGTH('w)"
      using Cons.prems by simp_all
    show "comembership t = (P @ [indicator (cluster_labels s) (i, j)]) @ replicate (r - 1) d_zero"
      by (rule com)
    show "unat (idx_comembership t) = length (P @ [indicator (cluster_labels s) (i, j)])"
      by (rule idx)
    show "length js \<le> r - 1"
      using Cons.prems by simp
    show "length (P @ [indicator (cluster_labels s) (i, j)]) + (r - 1) < 2 ^ LENGTH('w)"
      using Cons.prems r by simp
  qed
  then obtain s' where "fold_err (inner_body (of_nat i)) (map of_nat js) t = Inr s'"
    and "comembership s' = (P @ [indicator (cluster_labels s) (i, j)]) @
           map (\<lambda>j. indicator (cluster_labels s) (i, j)) js @ replicate (r - 1 - length js) d_zero"
    and "unat (idx_comembership s') = length (P @ [indicator (cluster_labels s) (i, j)]) + length js"
    using lab by auto
  with t show ?case
    by simp
qed

lemma length_row [simp]: "length (row n i) = n - Suc i"
  by (simp add: row_def)

lemma outer_fold_ok:
  fixes s :: "'w::len word state" and n :: "'w word"
  assumes "unat n \<le> length (cluster_labels s)" "\<forall>i\<in>set is. i < unat n"
    and "comembership s = P @ replicate r d_zero"
    and "unat (idx_comembership s) = length P"
    and "length (concat (map (row (unat n)) is)) \<le> r" "length P + r < 2 ^ LENGTH('w)"
  shows "\<exists>s'. fold_err (outer_body n) (map of_nat is) s = Inr s' \<and>
           comembership s' =
             P @ map (indicator (cluster_labels s)) (concat (map (row (unat n)) is)) @
             replicate (r - length (concat (map (row (unat n)) is))) d_zero \<and>
           unat (idx_comembership s') = length P + length (concat (map (row (unat n)) is))"
  using assms
proof (induction "is" arbitrary: s P r)
  case Nil
  then show ?case by simp
next
  case (Cons i "is")
  let ?L = "cluster_labels s"
  let ?s0 = "s\<lparr>history := history s @ [RowStart i (unat (idx_comembership s))]\<rparr>"
  let ?R = "map (indicator ?L) (row (unat n) i)"
  let ?rest = "concat (map (row (unat n)) is)"
  have i: "i < unat n"
    using Cons.prems by simp
  have small: "i < 2 ^ LENGTH('w)" "\<forall>j\<in>set [Suc i..<unat n]. j < 2 ^ LENGTH('w)"
    using i unsigned_less [of n] by (auto intro: less_trans)
  have len: "unat n - Suc i + length ?rest \<le> r"
    using Cons.prems by simp
  have "\<exists>t. fold_err (inner_body (of_nat i)) (map of_nat [Suc i..<unat n]) ?s0 = Inr t \<and>
          comembership t =
            P @ map (\<lambda>j. indicator (cluster_labels ?s0) (i, j)) [Suc i..<unat n] @
            replicate (r - length [Suc i..<unat n]) d_zero \<and>
          unat (idx_comembership t) = length P + length [Suc i..<unat n]"
  proof (rule inner_fold_ok)
    show "i < length (cluster_labels ?s0)" "\<forall>j\<in>set [Suc i..<unat n]. j < length (cluster_labels ?s0)"
      using i Cons.prems(1) by auto
    show "i < 2 ^ LENGTH('w)" "\<forall>j\<in>set [Suc i..<unat n]. j < 2 ^ LENGTH('w)"
      by (rule small)+
    show "comembership ?s0 = P @ replicate r d_zero" "unat (idx_comembership ?s0) = length P"
      using Cons.prems by simp_all
    show "length [Suc i..<unat n] \<le> r" "length P + r < 2 ^ LENGTH('w)"
      using len Cons.prems by simp_all
  qed
  then obtain t where
    t: "fold_err (inner_body (of_nat i)) (map of_nat [Suc i..<unat n]) ?s0 = Inr t"
    and com: "comembership t = (P @ ?R) @ replicate (r - (unat n - Suc i)) d_zero"
    and idx: "unat (idx_comembership t) = length (P @ ?R)"
    by (auto simp: row_def comp_def)
  from inner_fold_frame [OF t small] have lab: "cluster_labels t = ?L"
    by simp
  have "\<exists>s'. fold_err (outer_body n) (map of_nat is) t = Inr s' \<and>
          comembership s' =
            (P @ ?R) @ map (indicator (cluster_labels t)) ?rest @
            replicate (r - (unat n - Suc i) - length ?rest) d_zero \<and>
          unat (idx_comembership s') = length (P @ ?R) + length ?rest"
  proof (rule Cons.IH)
    show "unat n \<le> length (cluster_labels t)" "\<forall>i\<in>set is. i < unat n"
      using Cons.prems lab by simp_all
    show "comembership t = (P @ ?R) @ replicate (r - (unat n - Suc i)) d_zero"
      by (rule com)
    show "unat (idx_comembership t) = length (P @ ?R)"
      by (rule idx)
    show "length ?rest \<le> r - (unat n - Suc i)"
      using len by simp
    show "length (P @ ?R) + (r - (unat n - Suc i)) < 2 ^ LENGTH('w)"
      using len Cons.prems by simp
  qed
  then obtain s' where "fold_err (outer_body n) (map of_nat is) t = Inr s'"
    and "comembership s' = (P @ ?R) @ map (indicator ?L) ?rest @
           replicate (r - (unat n - Suc i) - length ?rest) d_zero"
    and "unat (idx_comembership s') = length (P @ ?R) + length ?rest"
    using lab by auto
  moreover have "outer_body n (of_nat i) s = Inr t"
    using t by (simp add: outer_body_fold [OF i])
  ultimately show ?case
    by (simp add: add.assoc)
qed

lemma even_consecutive: "2 * (i * (i + 1) div 2) = i * (i + 1)" for i :: nat
  by simp

lemma rows_before_double:
  "i \<le> n \<Longrightarrow> 2 * length (concat (map (row n) [0..<i])) + i * (i + 1) = 2 * (i * n)"
proof (induction i)
  case 0
  then show ?case by simp
next
  case (Suc i)
  then have "2 * length (concat (map (row n) [0..<i])) + i * (i + 1) = 2 * (i * n)"
    by simp
  moreover have "Suc i \<le> n"
    using Suc.prems .
  ultimately show ?case
    by (simp add: algebra_simps)
qed

lemma length_rows_before:
  assumes "i \<le> n"
  shows "length (concat (map (row n) [0..<i])) = row_start n i"
proof -
  have "2 * length (concat (map (row n) [0..<i])) + 2 * (i * (i + 1) div 2) = 2 * (i * n)"
    using rows_before_double [OF assms] even_consecutive [of i] by simp
  then show ?thesis
    unfolding row_start_def by linarith
qed

lemma row_start_all: "row_start n n = n * (n - 1) div 2"
proof -
  have "2 * row_start n n + n * (n + 1) = 2 * (n * n)"
    using rows_before_double [of n n] length_rows_before [of n n] by simp
  then have "2 * row_start n n = n * (n - 1)"
    by (cases n) (simp_all add: algebra_simps)
  then show ?thesis
    by (metis nonzero_mult_div_cancel_left zero_neq_numeral)
qed

lemma length_pairs: "length (pairs n) = n * (n - 1) div 2"
  using length_rows_before [of n n] row_start_all [of n] by (simp add: pairs_def)

lemma representable_length:
  assumes "representable TYPE('w::len) L"
  shows "L < 2 ^ LENGTH('w)"
proof (cases "L \<le> 1")
  case True
  have "(2::nat) ^ 1 \<le> 2 ^ LENGTH('w)"
    by (rule power_increasing) (simp_all add: Suc_leI)
  with True show ?thesis by simp
next
  case False
  then have "1 \<le> L - 1"
    by simp
  then have "L * 1 \<le> L * (L - 1)"
    by (rule mult_le_mono2)
  moreover have "L * (L - 1) < 2 ^ LENGTH('w)"
    using assms by (simp add: representable_def)
  ultimately show ?thesis
    by linarith
qed

lemma representable_alloc:
  assumes "representable TYPE('w::len) L"
  shows "unat ((of_nat L :: 'w word) * (of_nat L - 1) div 2) = L * (L - 1) div 2"
proof (cases "L \<le> 1")
  case True
  then have "L = 0 \<or> L = 1" by auto
  then show ?thesis by auto
next
  case False
  then have L: "1 \<le> L" "2 \<le> L * (L - 1)"
    using mult_le_mono [of 2 L 1 "L - 1"] by simp_all
  have fits: "L * (L - 1) < 2 ^ LENGTH('w)"
    using assms by (simp add: representable_def)
  have prod: "unat (of_nat (L * (L - 1)) :: 'w word) = L * (L - 1)"
    using fits by (rule unat_of_nat_small)
  have two: "unat (2 :: 'w word) = 2"
    using L(2) fits unat_of_nat_small [of 2, where 'w = 'w] by simp
  have eq: "(of_nat L :: 'w word) * (of_nat L - 1) = of_nat (L * (L - 1))"
    using L(1) by (simp add: of_nat_diff)
  show ?thesis
    unfolding eq unat_div prod two ..
qed

lemma run_ok:
  assumes "representable TYPE('w::len) (length labels)"
  shows "\<exists>s. run TYPE('w) labels = Inr s \<and>
           comembership s = map (indicator labels) (pairs (length labels)) \<and>
           unat (idx_comembership s) = length labels * (length labels - 1) div 2"
proof -
  let ?L = "length labels"
  let ?n = "of_nat ?L :: 'w word"
  let ?N = "?L * (?L - 1) div 2"
  let ?s0 = "initial TYPE('w) labels"
  have n: "unat ?n = ?L"
    using representable_length [OF assms] by (simp add: unat_of_nat_small)
  have N: "?N < 2 ^ LENGTH('w)"
    using assms by (simp add: representable_def less_imp_diff_less div_less_dividend
      le_less_trans [OF div_le_dividend])
  have "\<exists>s'. fold_err (outer_body ?n) (map of_nat [0..<unat ?n]) ?s0 = Inr s' \<and>
          comembership s' =
            [] @ map (indicator (cluster_labels ?s0)) (concat (map (row (unat ?n)) [0..<unat ?n])) @
            replicate (?N - length (concat (map (row (unat ?n)) [0..<unat ?n]))) d_zero \<and>
          unat (idx_comembership s') = length ([] :: double list) + length (concat (map (row (unat ?n)) [0..<unat ?n]))"
  proof (rule outer_fold_ok)
    show "unat ?n \<le> length (cluster_labels ?s0)"
      using n by (simp add: initial_def Let_def)
    show "\<forall>i\<in>set [0..<unat ?n]. i < unat ?n"
      by simp
    show "comembership ?s0 = [] @ replicate ?N d_zero"
      using representable_alloc [OF assms] by (simp add: initial_def Let_def)
    show "unat (idx_comembership ?s0) = length ([] :: double list)"
      by (simp add: initial_def Let_def)
    show "length (concat (map (row (unat ?n)) [0..<unat ?n])) \<le> ?N"
      using length_pairs [of ?L] n by (simp add: pairs_def)
    show "length ([] :: double list) + ?N < 2 ^ LENGTH('w)"
      using N by simp
  qed
  then show ?thesis
    using n length_pairs [of ?L]
    by (simp add: run_def outer_loop_fold pairs_def initial_def Let_def)
qed

lemma pairs_split:
  assumes "i < n"
  shows "pairs n = concat (map (row n) [0..<i]) @ row n i @ concat (map (row n) [Suc i..<n])"
proof -
  have "[0..<n] = [0..<i] @ i # [Suc i..<n]"
    using assms by (metis le_add1 less_imp_add_positive upt_add_eq_append upt_conv_Cons plus_nat.add_0)
  then show ?thesis
    by (simp add: pairs_def)
qed

lemma pairs_nth:
  assumes "i < j" "j < n"
  shows "pair_index n i j < length (pairs n)" and "pairs n ! pair_index n i j = (i, j)"
proof -
  have i: "i < n" "i \<le> n"
    using assms by simp_all
  let ?pre = "concat (map (row n) [0..<i])"
  have pre: "length ?pre = row_start n i"
    by (rule length_rows_before [OF i(2)])
  have idx: "pair_index n i j = length ?pre + (j - Suc i)"
    by (simp add: pair_index_def pre row_start_def)
  have k: "j - Suc i < length (row n i)"
    using assms by simp
  show "pair_index n i j < length (pairs n)"
    using k by (simp add: idx pairs_split [OF i(1)])
  have "pairs n ! pair_index n i j = row n i ! (j - Suc i)"
    using k by (simp add: idx pairs_split [OF i(1)] nth_append)
  also have "\<dots> = (i, j)"
    using assms by (simp add: row_def)
  finally show "pairs n ! pair_index n i j = (i, j)" .
qed

lemma inner_fold_noeq:
  fixes s :: "'w::len word state"
  assumes "i < length (cluster_labels s)" "\<forall>j\<in>set js. j < length (cluster_labels s)"
    and "i < 2 ^ LENGTH('w)" "\<forall>j\<in>set js. j < 2 ^ LENGTH('w)"
    and "\<forall>j\<in>set js. \<not> double_eq (cluster_labels s ! i) (cluster_labels s ! j)"
  shows "\<exists>s'. fold_err (inner_body (of_nat i)) (map of_nat js) s = Inr s' \<and>
           cluster_labels s' = cluster_labels s \<and> comembership s' = comembership s"
  using assms
proof (induction js arbitrary: s)
  case Nil
  then show ?case by simp
next
  case (Cons j js)
  let ?t = "s\<lparr>history := history s @ [Visit i j (unat (idx_comembership s))],
               idx_comembership := idx_comembership s + 1\<rparr>"
  have "inner_body (of_nat i :: 'w word) (of_nat j) s = Inr ?t"
    using Cons.prems by (simp add: inner_body_def Let_def unat_of_nat_small)
  moreover have "\<exists>s'. fold_err (inner_body (of_nat i)) (map of_nat js) ?t = Inr s' \<and>
      cluster_labels s' = cluster_labels ?t \<and> comembership s' = comembership ?t"
    by (rule Cons.IH) (use Cons.prems in simp_all)
  ultimately show ?case
    by simp
qed

lemma outer_fold_noeq:
  fixes s :: "'w::len word state" and n :: "'w word"
  assumes "unat n \<le> length (cluster_labels s)" "\<forall>i\<in>set is. i < unat n"
    and "\<forall>a\<in>set (cluster_labels s). \<forall>b\<in>set (cluster_labels s). \<not> double_eq a b"
  shows "\<exists>s'. fold_err (outer_body n) (map of_nat is) s = Inr s' \<and>
           cluster_labels s' = cluster_labels s \<and> comembership s' = comembership s"
  using assms
proof (induction "is" arbitrary: s)
  case Nil
  then show ?case by simp
next
  case (Cons i "is")
  let ?s0 = "s\<lparr>history := history s @ [RowStart i (unat (idx_comembership s))]\<rparr>"
  have i: "i < unat n"
    using Cons.prems by simp
  have small: "i < 2 ^ LENGTH('w)" "\<forall>j\<in>set [Suc i..<unat n]. j < 2 ^ LENGTH('w)"
    using i unsigned_less [of n] by (auto intro: less_trans)
  have "\<exists>t. fold_err (inner_body (of_nat i)) (map of_nat [Suc i..<unat n]) ?s0 = Inr t \<and>
          cluster_labels t = cluster_labels ?s0 \<and> comembership t = comembership ?s0"
  proof (rule inner_fold_noeq [OF _ _ small])
    show "i < length (cluster_labels ?s0)" "\<forall>j\<in>set [Suc i..<unat n]. j < length (cluster_labels ?s0)"
      using i Cons.prems(1) by auto
    show "\<forall>j\<in>set [Suc i..<unat n]. \<not> double_eq (cluster_labels ?s0 ! i) (cluster_labels ?s0 ! j)"
      using i Cons.prems(1,3) by auto
  qed
  then obtain t where t: "outer_body n (of_nat i) s = Inr t"
    and lab: "cluster_labels t = cluster_labels s" and com: "comembership t = comembership s"
    by (auto simp: outer_body_fold [OF i])
  have "\<exists>s'. fold_err (outer_body n) (map of_nat is) t = Inr s' \<and>
          cluster_labels s' = cluster_labels t \<and> comembership s' = comembership t"
    by (rule Cons.IH) (use Cons.prems lab in simp_all)
  with t lab com show ?case
    by simp
qed

lemma rcpp_noeq:
  assumes "\<forall>a\<in>set labels. \<forall>b\<in>set labels. \<not> double_eq a b"
  shows "rcpp_comembership TYPE('w::len) labels =
    Inr (replicate (unat ((of_nat (length labels) :: 'w word) * (of_nat (length labels) - 1) div 2)) d_zero)"
proof -
  let ?n = "of_nat (length labels) :: 'w word"
  let ?s0 = "initial TYPE('w) labels"
  have "\<exists>s'. fold_err (outer_body ?n) (map of_nat [0..<unat ?n]) ?s0 = Inr s' \<and>
          cluster_labels s' = cluster_labels ?s0 \<and> comembership s' = comembership ?s0"
  proof (rule outer_fold_noeq)
    show "unat ?n \<le> length (cluster_labels ?s0)"
      by (simp add: initial_def Let_def unat_of_nat)
    show "\<forall>i\<in>set [0..<unat ?n]. i < unat ?n"
      by simp
    show "\<forall>a\<in>set (cluster_labels ?s0). \<forall>b\<in>set (cluster_labels ?s0). \<not> double_eq a b"
      using assms by (simp add: initial_def Let_def)
  qed
  then show ?thesis
    by (auto simp: rcpp_comembership_def run_def outer_loop_fold initial_def Let_def)
qed

lemma inner_fold_oob:
  fixes s :: "'w::len word state"
  assumes "i < length (cluster_labels s)" "\<forall>j\<in>set js. j < length (cluster_labels s)"
    and "i < 2 ^ LENGTH('w)" "\<forall>j\<in>set js. j < 2 ^ LENGTH('w)"
    and "\<forall>j\<in>set js. double_eq (cluster_labels s ! i) (cluster_labels s ! j)"
    and "unat (idx_comembership s) \<le> length (comembership s)"
    and "length (comembership s) < unat (idx_comembership s) + length js"
    and "length (comembership s) < 2 ^ LENGTH('w)"
  shows "fold_err (inner_body (of_nat i)) (map of_nat js) s = Inl OutOfBounds"
  using assms
proof (induction js arbitrary: s)
  case Nil
  then show ?case by simp
next
  case (Cons j js)
  have u: "unat (of_nat i :: 'w word) = i" "unat (of_nat j :: 'w word) = j"
    using Cons.prems by (simp_all add: unat_of_nat_small)
  show ?case
  proof (cases "unat (idx_comembership s) < length (comembership s)")
    case False
    then show ?thesis
      using Cons.prems u by (simp add: inner_body_def Let_def)
  next
    case True
    let ?t = "s\<lparr>history := history s @ [Visit i j (unat (idx_comembership s))],
                 comembership := (comembership s)[unat (idx_comembership s) := d_one],
                 idx_comembership := idx_comembership s + 1\<rparr>"
    have t: "inner_body (of_nat i :: 'w word) (of_nat j) s = Inr ?t"
      using True Cons.prems u by (simp add: inner_body_def Let_def)
    have inc: "unat (idx_comembership s + 1) = Suc (unat (idx_comembership s))"
      using True Cons.prems(8) by (intro unat_succ_small) simp
    have "fold_err (inner_body (of_nat i)) (map of_nat js) ?t = Inl OutOfBounds"
      by (rule Cons.IH) (use Cons.prems True inc in simp_all)
    with t show ?thesis
      by simp
  qed
qed

lemma run_all_equal_oob:
  assumes eq: "\<forall>a\<in>set labels. \<forall>b\<in>set labels. double_eq a b"
    and short: "unat ((of_nat (length labels) :: 'w::len word) * (of_nat (length labels) - 1) div 2)
                 < unat (of_nat (length labels) :: 'w word) - 1"
  shows "run TYPE('w) labels = Inl OutOfBounds"
proof -
  let ?n = "of_nat (length labels) :: 'w word"
  let ?s0 = "initial TYPE('w) labels"
  let ?s1 = "?s0\<lparr>history := history ?s0 @ [RowStart 0 (unat (idx_comembership ?s0))]\<rparr>"
  have pos: "0 < unat ?n"
    using short by simp
  have le: "unat ?n \<le> length labels"
    by (simp add: unat_of_nat)
  have "fold_err (inner_body (of_nat 0)) (map of_nat [Suc 0..<unat ?n]) ?s1 = Inl OutOfBounds"
  proof (rule inner_fold_oob)
    show "0 < length (cluster_labels ?s1)" "\<forall>j\<in>set [Suc 0..<unat ?n]. j < length (cluster_labels ?s1)"
      using pos le by (auto simp: initial_def Let_def)
    show "(0::nat) < 2 ^ LENGTH('w)" "\<forall>j\<in>set [Suc 0..<unat ?n]. j < 2 ^ LENGTH('w)"
      using unsigned_less [of ?n] by (auto intro: less_trans)
    have "double_eq (labels ! 0) (labels ! j)" if "j < unat ?n" for j
    proof -
      have "0 < length labels" "j < length labels"
        using that pos le by linarith+
      then have "labels ! 0 \<in> set labels" "labels ! j \<in> set labels"
        by (simp_all only: nth_mem)
      with eq show ?thesis
        by blast
    qed
    then show "\<forall>j\<in>set [Suc 0..<unat ?n]. double_eq (cluster_labels ?s1 ! 0) (cluster_labels ?s1 ! j)"
      by (simp add: initial_def Let_def)
    show "unat (idx_comembership ?s1) \<le> length (comembership ?s1)"
      by (simp add: initial_def Let_def)
    show "length (comembership ?s1) < unat (idx_comembership ?s1) + length [Suc 0..<unat ?n]"
      using short by (simp add: initial_def Let_def)
    show "length (comembership ?s1) < 2 ^ LENGTH('w)"
      by (simp add: initial_def Let_def)
  qed
  then have "outer_body ?n (of_nat 0) ?s0 = Inl OutOfBounds"
    by (simp only: outer_body_fold [OF pos])
  moreover have "[0..<unat ?n] = 0 # [Suc 0..<unat ?n]"
    using pos by (simp add: upt_conv_Cons)
  ultimately have "fold_err (outer_body ?n) (map of_nat [0..<unat ?n]) ?s0 = Inl OutOfBounds"
    by (simp only: list.map fold_err.simps sum.case)
  then show ?thesis
    by (simp only: run_def outer_loop_fold unat_0)
qed

section \<open>Histories, invariants and relabelling\<close>

lemma visited_append [simp]: "visited (xs @ ys) = visited xs @ visited ys"
  by (induction xs rule: visited.induct) simp_all

lemma counters_append [simp]: "counters (xs @ ys) = counters xs @ counters ys"
  by (induction xs rule: counters.induct) simp_all

lemma row_starts_append [simp]: "row_starts (xs @ ys) = row_starts xs @ row_starts ys"
  by (induction xs rule: row_starts.induct) simp_all

lemma visited_visits [simp]: "visited (visits i js c) = map (Pair i) js"
  by (induction js arbitrary: c) simp_all

lemma row_starts_visits [simp]: "row_starts (visits i js c) = []"
  by (induction js arbitrary: c) simp_all

lemma upt_0_Suc: "[0..<Suc m] = 0 # map Suc [0..<m]"
  by (simp only: upt_conv_Cons [of 0 "Suc m"] map_Suc_upt zero_less_Suc)

lemma counters_visits:
  "counters (visits i js c) = map (\<lambda>k. unat (c + of_nat k)) [0..<length js]"
proof (induction js arbitrary: c)
  case Nil
  then show ?case by simp
next
  case (Cons j js)
  have "counters (visits i (j # js) c) = unat c # map (\<lambda>k. unat (c + 1 + of_nat k)) [0..<length js]"
    by (simp add: Cons.IH)
  also have "\<dots> = map (\<lambda>k. unat (c + of_nat k)) [0..<Suc (length js)]"
    unfolding upt_0_Suc by (simp add: comp_def add.assoc del: upt_Suc)
  finally show ?case
    by simp
qed

lemma visited_rows [simp]: "visited (rows n is c) = concat (map (row n) is)"
  by (induction "is" arbitrary: c) (simp_all add: row_def)

lemma map_shift_upt: "map (\<lambda>k. f (a + k)) [0..<b] = map f [a..<a + b]"
  by (induction b) simp_all

lemma counters_rows:
  "counters (rows n is c) = map (\<lambda>k. unat (c + of_nat k)) [0..<length (concat (map (row n) is))]"
proof (induction "is" arbitrary: c)
  case Nil
  then show ?case by simp
next
  case (Cons i "is")
  let ?a = "n - Suc i"
  let ?b = "length (concat (map (row n) is))"
  have "counters (rows n (i # is) c) =
      map (\<lambda>k. unat (c + of_nat k)) [0..<?a] @ map (\<lambda>k. unat (c + of_nat (?a + k))) [0..<?b]"
    by (simp add: counters_visits Cons.IH add.assoc)
  also have "\<dots> = map (\<lambda>k. unat (c + of_nat k)) [0..<?a] @ map (\<lambda>k. unat (c + of_nat k)) [?a..<?a + ?b]"
    by (simp only: map_shift_upt [of "\<lambda>k. unat (c + of_nat k)"])
  also have "\<dots> = map (\<lambda>k. unat (c + of_nat k)) ([0..<?a] @ [?a..<?a + ?b])"
    by (simp only: map_append)
  also have "[0..<?a] @ [?a..<?a + ?b] = [0..<?a + ?b]"
    by (simp only: upt_add_eq_append [OF le0, symmetric] add_0)
  finally show ?case
    by simp
qed

lemma wrap_unat: "unat (of_nat k :: 'w::len word) = wrap TYPE('w) k"
  by (simp only: wrap_def unat_of_nat)

lemma history_order:
  assumes "run TYPE('w::len) labels = Inr s"
  shows "visited (history s) = pairs (n_of TYPE('w) labels)"
    and "counters (history s) = map (wrap TYPE('w)) [0..<length (pairs (n_of TYPE('w) labels))]"
proof -
  let ?n = "n_of TYPE('w) labels"
  have h: "history s = rows ?n [0..<?n] (0 :: 'w word)"
    using run_frame(3) [OF assms] by (simp only: n_of_def)
  show "visited (history s) = pairs ?n"
    by (simp only: h visited_rows pairs_def)
  have "counters (history s) = map (\<lambda>k. unat (0 + of_nat k :: 'w word)) [0..<length (pairs ?n)]"
    by (simp only: h counters_rows pairs_def)
  then show "counters (history s) = map (wrap TYPE('w)) [0..<length (pairs ?n)]"
    by (simp only: add_0 wrap_unat)
qed

lemma row_start_Suc:
  assumes "i < n"
  shows "row_start n (Suc i) = row_start n i + (n - Suc i)"
proof -
  have "length (concat (map (row n) [0..<Suc i])) = length (concat (map (row n) [0..<i])) + (n - Suc i)"
    by simp
  then show ?thesis
    using assms length_rows_before [of i n] length_rows_before [of "Suc i" n] by simp
qed

lemma row_starts_rows:
  assumes "a \<le> n"
  shows "row_starts (rows n [a..<n] (of_nat (row_start n a) :: 'w::len word)) =
         map (\<lambda>i. (i, wrap TYPE('w) (row_start n i))) [a..<n]"
  using assms
proof (induction "n - a" arbitrary: a)
  case 0
  then show ?case by simp
next
  case (Suc d)
  then have a: "a < n" and d: "d = n - Suc a" and le: "Suc a \<le> n"
    by simp_all
  have upt: "[a..<n] = a # [Suc a..<n]"
    using a by (simp only: upt_conv_Cons)
  have next_c: "(of_nat (row_start n a) :: 'w word) + of_nat (n - Suc a) = of_nat (row_start n (Suc a))"
    by (simp only: row_start_Suc [OF a] of_nat_add)
  have "row_starts (rows n [Suc a..<n] (of_nat (row_start n (Suc a)) :: 'w word)) =
        map (\<lambda>i. (i, wrap TYPE('w) (row_start n i))) [Suc a..<n]"
    by (rule Suc.hyps(1) [OF d le])
  then show ?case
    by (simp only: upt rows.simps row_starts.simps row_starts_append row_starts_visits
        append_Nil next_c list.map wrap_unat)
qed

lemma first_visit_rows:
  assumes "a \<le> i" "Suc i < n"
  shows "Visit i (Suc i) (wrap TYPE('w) (row_start n i)) \<in>
         set (rows n [a..<n] (of_nat (row_start n a) :: 'w::len word))"
  using assms
proof (induction "i - a" arbitrary: a)
  case 0
  then have "a = i" by simp
  have upt: "[i..<n] = i # [Suc i..<n]" "[Suc i..<n] = Suc i # [Suc (Suc i)..<n]"
    using 0 by (simp_all only: upt_conv_Cons Suc_lessD)
  show ?case
    unfolding \<open>a = i\<close> upt(1) rows.simps
    by (subst upt(2)) (simp add: wrap_unat)
next
  case (Suc d)
  then have a: "a < n" and d: "d = i - Suc a" and le: "Suc a \<le> i"
    by simp_all
  have upt: "[a..<n] = a # [Suc a..<n]"
    using a by (simp only: upt_conv_Cons)
  have next_c: "(of_nat (row_start n a) :: 'w word) + of_nat (n - Suc a) = of_nat (row_start n (Suc a))"
    by (simp only: row_start_Suc [OF a] of_nat_add)
  have "Visit i (Suc i) (wrap TYPE('w) (row_start n i)) \<in>
        set (rows n [Suc a..<n] (of_nat (row_start n (Suc a)) :: 'w word))"
    by (rule Suc.hyps(1) [OF d le Suc.prems(2)])
  then show ?case
    by (simp only: upt rows.simps next_c) simp
qed

lemma row_start_0 [simp]: "row_start n 0 = 0"
  by (simp add: row_start_def)

lemma history_row_starts:
  assumes "run TYPE('w::len) labels = Inr s"
  shows "row_starts (history s) =
           map (\<lambda>i. (i, wrap TYPE('w) (row_start (n_of TYPE('w) labels) i))) [0..<n_of TYPE('w) labels]"
    and "Suc i < n_of TYPE('w) labels \<Longrightarrow>
           Visit i (Suc i) (wrap TYPE('w) (row_start (n_of TYPE('w) labels) i)) \<in> set (history s)"
proof -
  let ?n = "n_of TYPE('w) labels"
  have "history s = rows ?n [0..<?n] (0 :: 'w word)"
    using run_frame(3) [OF assms] by (simp only: n_of_def)
  then have h: "history s = rows ?n [0..<?n] (of_nat (row_start ?n 0) :: 'w word)"
    by simp
  show "row_starts (history s) = map (\<lambda>i. (i, wrap TYPE('w) (row_start ?n i))) [0..<?n]"
    by (simp only: h row_starts_rows [OF le0])
  show "Visit i (Suc i) (wrap TYPE('w) (row_start ?n i)) \<in> set (history s)" if "Suc i < ?n"
    by (simp only: h first_visit_rows [OF le0 that])
qed

lemma lift_simps [simp]: "lift g (Inl e) = Inl e" "lift g (Inr s) = Inr (g s)"
  by (simp_all add: lift_def)

lemma fold_err_inv:
  assumes "\<And>x s t. x \<in> set xs \<Longrightarrow> I s \<Longrightarrow> f x s = Inr t \<Longrightarrow> I t"
    and "I s" and "fold_err f xs s = Inr t"
  shows "I t"
  using assms
proof (induction xs arbitrary: s)
  case Nil
  then show ?case by simp
next
  case (Cons x xs)
  from Cons.prems(3) obtain u where u: "f x s = Inr u" and rest: "fold_err f xs u = Inr t"
    by (auto split: sum.splits)
  have "I u"
    using Cons.prems(1) [of x s u] Cons.prems(2) u by simp
  show ?case
  proof (rule Cons.IH [OF _ \<open>I u\<close> rest])
    fix y s' t'
    assume "y \<in> set xs" "I s'" "f y s' = Inr t'"
    then show "I t'"
      using Cons.prems(1) [of y s' t'] by simp
  qed
qed

lemma fold_err_sim:
  assumes "\<And>x s. x \<in> set xs \<Longrightarrow> I s \<Longrightarrow> f' x (g s) = lift g (f x s)"
    and "\<And>x s t. x \<in> set xs \<Longrightarrow> I s \<Longrightarrow> f x s = Inr t \<Longrightarrow> I t"
    and "I s"
  shows "fold_err f' xs (g s) = lift g (fold_err f xs s)"
  using assms
proof (induction xs arbitrary: s)
  case Nil
  then show ?case by simp
next
  case (Cons x xs)
  have step: "f' x (g s) = lift g (f x s)"
    using Cons.prems(1) [of x s] Cons.prems(3) by simp
  show ?case
  proof (cases "f x s")
    case (Inl e)
    with step show ?thesis by simp
  next
    case (Inr u)
    have "I u"
      using Cons.prems(2) [of x s u] Cons.prems(3) Inr by simp
    have "fold_err f' xs (g u) = lift g (fold_err f xs u)"
    proof (rule Cons.IH [OF _ _ \<open>I u\<close>])
      fix y s'
      assume "y \<in> set xs" "I s'"
      then show "f' y (g s') = lift g (f y s')"
        using Cons.prems(1) [of y s'] by simp
    next
      fix y s' t'
      assume "y \<in> set xs" "I s'" "f y s' = Inr t'"
      then show "I t'"
        using Cons.prems(2) [of y s' t'] by simp
    qed
    with step Inr show ?thesis by simp
  qed
qed

lemma inner_body_justified:
  assumes "cluster_labels s = labels \<and> justified labels s" and "inner_body i j s = Inr t"
  shows "cluster_labels t = labels \<and> justified labels t"
proof -
  let ?k = "unat (idx_comembership s)"
  let ?h = "history s @ [Visit (unat i) (unat j) ?k]"
  have old: "comembership s ! k = d_zero \<or>
        comembership s ! k = d_one \<and> (\<exists>i' j'. Visit i' j' k \<in> set ?h \<and> double_eq (labels ! i') (labels ! j'))"
    if "k < length (comembership s)" for k
  proof -
    from assms(1) that have "comembership s ! k = d_zero \<or>
        comembership s ! k = d_one \<and>
        (\<exists>i' j'. Visit i' j' k \<in> set (history s) \<and> double_eq (labels ! i') (labels ! j'))"
      unfolding justified_def by blast
    then show ?thesis
      by fastforce
  qed
  show ?thesis
  proof (cases "double_eq (labels ! unat i) (labels ! unat j)")
    case False
    with assms have t: "t = s\<lparr>history := ?h, idx_comembership := idx_comembership s + 1\<rparr>"
      by (auto simp: inner_body_def Let_def split: if_splits)
    show ?thesis
      using assms(1) old unfolding t justified_def by simp
  next
    case True
    with assms have t: "t = s\<lparr>history := ?h,
        comembership := (comembership s)[?k := d_one], idx_comembership := idx_comembership s + 1\<rparr>"
      by (auto simp: inner_body_def Let_def split: if_splits)
    have new: "(comembership s)[?k := d_one] ! k = d_zero \<or>
        (comembership s)[?k := d_one] ! k = d_one \<and>
        (\<exists>i' j'. Visit i' j' k \<in> set ?h \<and> double_eq (labels ! i') (labels ! j'))"
      if "k < length (comembership s)" for k
    proof (cases "k = ?k")
      case True
      have "Visit (unat i) (unat j) k \<in> set ?h"
        using True by simp
      moreover have "(comembership s)[?k := d_one] ! k = d_one"
        using that True by simp
      ultimately show ?thesis
        using \<open>double_eq (labels ! unat i) (labels ! unat j)\<close> by blast
    next
      case False
      then have "(comembership s)[?k := d_one] ! k = comembership s ! k"
        by simp
      with old [OF that] show ?thesis
        by (simp only:)
    qed
    show ?thesis
      using assms(1) new unfolding t justified_def by simp
  qed
qed

lemma outer_body_justified:
  assumes "cluster_labels s = labels \<and> justified labels s" and "outer_body n i s = Inr t"
  shows "cluster_labels t = labels \<and> justified labels t"
proof -
  let ?s0 = "s\<lparr>history := history s @ [RowStart (unat i) (unat (idx_comembership s))]\<rparr>"
  have "cluster_labels ?s0 = labels \<and> justified labels ?s0"
    using assms(1) unfolding justified_def by auto
  moreover have "fold_err (inner_body i) (map of_nat [unat (i + 1)..<unat n]) ?s0 = Inr t"
    using assms(2) by (simp only: outer_body_def inner_loop_fold)
  ultimately show ?thesis
    using fold_err_inv [of _ "\<lambda>s. cluster_labels s = labels \<and> justified labels s" "inner_body i"]
      inner_body_justified by blast
qed

lemma run_justified:
  assumes "run TYPE('w::len) labels = Inr s"
  shows "justified labels s"
proof -
  let ?s0 = "initial TYPE('w) labels"
  have "cluster_labels ?s0 = labels \<and> justified labels ?s0"
    by (simp add: initial_def Let_def justified_def)
  moreover have "fold_err (outer_body (of_nat (length labels))) (map of_nat [unat (0::'w word)..<unat (of_nat (length labels) :: 'w word)]) ?s0 = Inr s"
    using assms by (simp only: run_def outer_loop_fold)
  ultimately have "cluster_labels s = labels \<and> justified labels s"
    using fold_err_inv [of _ "\<lambda>s. cluster_labels s = labels \<and> justified labels s" "outer_body (of_nat (length labels))"]
      outer_body_justified by blast
  then show ?thesis ..
qed

lemma inner_body_relabel:
  assumes pres: "\<forall>a\<in>set labels. \<forall>b\<in>set labels. double_eq (f a) (f b) = double_eq a b"
    and lab: "cluster_labels s = labels"
  shows "inner_body i j (relabel f s) = lift (relabel f) (inner_body i j s)"
proof (cases "unat i < length labels \<and> unat j < length labels")
  case False
  then show ?thesis
    using lab by (auto simp: inner_body_def Let_def relabel_def)
next
  case True
  then have "labels ! unat i \<in> set labels" "labels ! unat j \<in> set labels"
    by simp_all
  with pres have "double_eq (f (labels ! unat i)) (f (labels ! unat j)) =
      double_eq (labels ! unat i) (labels ! unat j)"
    by blast
  with True lab show ?thesis
    by (simp add: inner_body_def Let_def relabel_def)
qed

lemma inner_fold_relabel:
  assumes pres: "\<forall>a\<in>set labels. \<forall>b\<in>set labels. double_eq (f a) (f b) = double_eq a b"
    and lab: "cluster_labels s = labels"
  shows "fold_err (inner_body i) js (relabel f s) = lift (relabel f) (fold_err (inner_body i) js s)"
proof (rule fold_err_sim [where I = "\<lambda>s. cluster_labels s = labels"])
  show "inner_body i x (relabel f s) = lift (relabel f) (inner_body i x s)"
    if "cluster_labels s = labels" for x s
    by (rule inner_body_relabel [OF pres that])
  show "cluster_labels t = labels" if "cluster_labels s = labels" "inner_body i x s = Inr t" for x s t
    using inner_body_Inr(1) [OF that(2)] that(1) by simp
  show "cluster_labels s = labels"
    by (rule lab)
qed

lemma outer_body_labels:
  assumes "outer_body n i s = Inr t"
  shows "cluster_labels t = cluster_labels s"
proof -
  let ?s0 = "s\<lparr>history := history s @ [RowStart (unat i) (unat (idx_comembership s))]\<rparr>"
  have "fold_err (inner_body i) (map of_nat [unat (i + 1)..<unat n]) ?s0 = Inr t"
    using assms by (simp only: outer_body_def inner_loop_fold)
  from fold_err_inv [of _ "\<lambda>u. cluster_labels u = cluster_labels s" "inner_body i", OF _ _ this]
  show ?thesis
    using inner_body_Inr(1) by fastforce
qed

lemma outer_body_relabel:
  assumes pres: "\<forall>a\<in>set labels. \<forall>b\<in>set labels. double_eq (f a) (f b) = double_eq a b"
    and lab: "cluster_labels s = labels"
  shows "outer_body n i (relabel f s) = lift (relabel f) (outer_body n i s)"
proof -
  let ?s0 = "s\<lparr>history := history s @ [RowStart (unat i) (unat (idx_comembership s))]\<rparr>"
  have st: "(relabel f s)\<lparr>history := history (relabel f s) @
      [RowStart (unat i) (unat (idx_comembership (relabel f s)))]\<rparr> = relabel f ?s0"
    by (cases s) (simp add: relabel_def)
  have "outer_body n i (relabel f s) =
      fold_err (inner_body i) (map of_nat [unat (i + 1)..<unat n]) (relabel f ?s0)"
    by (simp only: outer_body_def inner_loop_fold st)
  also have "\<dots> = lift (relabel f) (fold_err (inner_body i) (map of_nat [unat (i + 1)..<unat n]) ?s0)"
    by (rule inner_fold_relabel [OF pres]) (simp add: lab)
  also have "\<dots> = lift (relabel f) (outer_body n i s)"
    by (simp only: outer_body_def inner_loop_fold)
  finally show ?thesis .
qed

lemma run_relabel:
  assumes pres: "\<forall>a\<in>set labels. \<forall>b\<in>set labels. double_eq (f a) (f b) = double_eq a b"
  shows "run TYPE('w::len) (map f labels) = lift (relabel f) (run TYPE('w) labels)"
proof -
  let ?n = "of_nat (length labels) :: 'w word"
  have init: "initial TYPE('w) (map f labels) = relabel f (initial TYPE('w) labels)"
    by (simp add: initial_def Let_def relabel_def)
  have "fold_err (outer_body ?n) (map of_nat [unat (0::'w word)..<unat ?n]) (relabel f (initial TYPE('w) labels)) =
      lift (relabel f) (fold_err (outer_body ?n) (map of_nat [unat (0::'w word)..<unat ?n]) (initial TYPE('w) labels))"
  proof (rule fold_err_sim [where I = "\<lambda>s. cluster_labels s = labels"])
    show "outer_body ?n x (relabel f s) = lift (relabel f) (outer_body ?n x s)"
      if "cluster_labels s = labels" for x s
      by (rule outer_body_relabel [OF pres that])
    show "cluster_labels t = labels" if "cluster_labels s = labels" "outer_body ?n x s = Inr t" for x s t
      using outer_body_labels [OF that(2)] that(1) by simp
    show "cluster_labels (initial TYPE('w) labels) = labels"
      by (simp add: initial_def Let_def)
  qed
  then show ?thesis
    by (simp only: run_def outer_loop_fold init length_map)
qed

lemma rcpp_relabel:
  assumes "\<forall>a\<in>set labels. \<forall>b\<in>set labels. double_eq (f a) (f b) = double_eq a b"
  shows "rcpp_comembership TYPE('w::len) (map f labels) = rcpp_comembership TYPE('w) labels"
  unfolding rcpp_comembership_def run_relabel [OF assms]
  by (cases "run TYPE('w) labels") (simp_all add: relabel_def)

section \<open>A run in which the running index wraps around\<close>

lemma outer_fold_noeq_rows:
  fixes s :: "'w::len word state" and n :: "'w word"
  assumes "unat n \<le> length (cluster_labels s)" "\<forall>i\<in>set is. i < unat n"
    and "\<forall>i\<in>set is. \<forall>j<length (cluster_labels s). \<not> double_eq (cluster_labels s ! i) (cluster_labels s ! j)"
  shows "\<exists>s'. fold_err (outer_body n) (map of_nat is) s = Inr s' \<and>
           cluster_labels s' = cluster_labels s \<and> comembership s' = comembership s"
  using assms
proof (induction "is" arbitrary: s)
  case Nil
  then show ?case by simp
next
  case (Cons i "is")
  let ?s0 = "s\<lparr>history := history s @ [RowStart i (unat (idx_comembership s))]\<rparr>"
  have i: "i < unat n"
    using Cons.prems by simp
  have small: "i < 2 ^ LENGTH('w)" "\<forall>j\<in>set [Suc i..<unat n]. j < 2 ^ LENGTH('w)"
    using i unsigned_less [of n] by (auto intro: less_trans)
  have "\<exists>t. fold_err (inner_body (of_nat i)) (map of_nat [Suc i..<unat n]) ?s0 = Inr t \<and>
          cluster_labels t = cluster_labels ?s0 \<and> comembership t = comembership ?s0"
  proof (rule inner_fold_noeq [OF _ _ small])
    show "i < length (cluster_labels ?s0)" "\<forall>j\<in>set [Suc i..<unat n]. j < length (cluster_labels ?s0)"
      using i Cons.prems(1) by auto
    show "\<forall>j\<in>set [Suc i..<unat n]. \<not> double_eq (cluster_labels ?s0 ! i) (cluster_labels ?s0 ! j)"
      using i Cons.prems(1,3) by auto
  qed
  then obtain t where t: "outer_body n (of_nat i) s = Inr t"
    and lab: "cluster_labels t = cluster_labels s" and com: "comembership t = comembership s"
    by (auto simp: outer_body_fold [OF i])
  have "\<exists>s'. fold_err (outer_body n) (map of_nat is) t = Inr s' \<and>
          cluster_labels s' = cluster_labels t \<and> comembership s' = comembership t"
    by (rule Cons.IH) (use Cons.prems lab in simp_all)
  with t lab com show ?case
    by simp
qed

lemma sum_rows: "sum_list (map (\<lambda>i. n - Suc i) is) = length (concat (map (row n) is))"
  by (induction "is") simp_all

lemma rcpp_last_pair:
  fixes x :: double and m n :: nat
  defines "labels \<equiv> replicate m qnan @ [x, x]"
  assumes x: "double_eq x x"
    and nm: "n = Suc (Suc m)"
    and n: "n < 2 ^ LENGTH('w::len)"
    and room: "unat (of_nat (row_start n m) :: 'w word) <
               unat ((of_nat n :: 'w word) * (of_nat n - 1) div 2)"
  shows "rcpp_comembership TYPE('w) labels =
    Inr ((replicate (unat ((of_nat n :: 'w word) * (of_nat n - 1) div 2)) d_zero)
           [unat (of_nat (row_start n m) :: 'w word) := d_one])"
proof -
  let ?n = "of_nat n :: 'w word"
  let ?A = "unat (?n * (?n - 1) div 2)"
  let ?c = "of_nat (row_start n m) :: 'w word"
  let ?s0 = "initial TYPE('w) labels"
  define j where "j = Suc m"
  have len: "length labels = n"
    by (simp add: labels_def nm)
  have un: "unat ?n = n"
    using n by (rule unat_of_nat_small)
  have lt: "m < n" "j < n" "m \<le> n"
    by (simp_all add: nm j_def)
  have upts: "[Suc m..<n] = [j]" "[Suc j..<n] = []" "[0..<n] = [0..<m] @ [m, j]"
    by (simp_all add: nm j_def upt_conv_Cons)
  have nth_nan: "labels ! i = qnan" if "i < m" for i
    using that by (simp add: labels_def nth_append)
  have nth_m: "labels ! m = x" "labels ! j = x"
    by (simp_all add: labels_def nth_append j_def)
  have nan: "\<not> double_eq qnan y" for y
    by (simp add: double_eq_def is_nan_def qnan_def)
  have s0: "cluster_labels ?s0 = labels" "comembership ?s0 = replicate ?A d_zero"
    "idx_comembership ?s0 = 0"
    by (simp_all add: initial_def Let_def len)
  have rows_lt: "\<forall>i\<in>set [0..<m]. i < unat ?n"
    using lt(1) by (simp add: un)
  have "\<exists>t. fold_err (outer_body ?n) (map of_nat [0..<m]) ?s0 = Inr t \<and>
          cluster_labels t = cluster_labels ?s0 \<and> comembership t = comembership ?s0"
  proof (rule outer_fold_noeq_rows [OF _ rows_lt])
    show "unat ?n \<le> length (cluster_labels ?s0)"
      by (simp add: un s0 len)
    show "\<forall>i\<in>set [0..<m]. \<forall>j<length (cluster_labels ?s0).
        \<not> double_eq (cluster_labels ?s0 ! i) (cluster_labels ?s0 ! j)"
      by (simp add: s0 nth_nan nan)
  qed
  then obtain t where t: "fold_err (outer_body ?n) (map of_nat [0..<m]) ?s0 = Inr t"
    and t_lab: "cluster_labels t = labels"
    and t_com: "comembership t = replicate ?A d_zero"
    by (auto simp: s0)
  have t_idx: "idx_comembership t = ?c"
    using outer_fold_frame [OF t rows_lt] length_rows_before [OF lt(3)]
    by (simp add: un sum_rows s0)
  let ?t0 = "t\<lparr>history := history t @ [RowStart m (unat (idx_comembership t))]\<rparr>"
  let ?t1 = "?t0\<lparr>history := history ?t0 @ [Visit m j (unat ?c)],
                  comembership := (replicate ?A d_zero)[unat ?c := d_one],
                  idx_comembership := ?c + 1\<rparr>"
  have um: "unat (of_nat m :: 'w word) = m" "unat (of_nat j :: 'w word) = j"
    using n lt by (simp_all only: unat_of_nat_small [OF less_trans])
  have body: "inner_body (of_nat m :: 'w word) (of_nat j) ?t0 = Inr ?t1"
    using room x lt by (simp add: inner_body_def Let_def um t_lab len nth_m t_com t_idx)
  have row_m: "outer_body ?n (of_nat m) t = Inr ?t1"
    using body lt(1) by (simp add: outer_body_fold [of m ?n] un upts)
  let ?t2 = "?t1\<lparr>history := history ?t1 @ [RowStart j (unat (idx_comembership ?t1))]\<rparr>"
  have row_last: "outer_body ?n (of_nat j) ?t1 = Inr ?t2"
    using lt(2) by (simp add: outer_body_fold [of j ?n] un upts)
  have "fold_err (outer_body ?n) (map of_nat ([0..<m] @ [m, j])) ?s0 = Inr ?t2"
    using t row_m row_last by (simp add: fold_err_append)
  then have "run TYPE('w) labels = Inr ?t2"
    by (simp only: run_def outer_loop_fold len un unat_0 upts(3))
  then show ?thesis
    by (simp add: rcpp_comembership_def)
qed

section \<open>Results\<close>

subsection \<open>Facts shared by the results\<close>

lemma rcpp_ok:
  assumes "representable TYPE('w::len) (length labels)"
  shows "rcpp_comembership TYPE('w) labels = Inr (map (indicator labels) (pairs (length labels)))"
  using run_ok [OF assms] by (auto simp: rcpp_comembership_def)

lemma all_nan_unequal:
  "\<forall>a\<in>set (replicate k qnan). \<forall>b\<in>set (replicate k qnan). \<not> double_eq a b"
  by (simp add: double_eq_def is_nan_def qnan_def)

lemma all_one_equal:
  "\<forall>a\<in>set (replicate k d_one). \<forall>b\<in>set (replicate k d_one). double_eq a b"
  by (simp add: double_eq_def is_nan_def d_one_def)

lemma nan_never_equal: "is_nan a \<or> is_nan b \<Longrightarrow> \<not> double_eq a b"
  by (auto simp: double_eq_def)

lemma n_of_le: "n_of TYPE('w::len) labels \<le> length labels"
  by (simp add: n_of_def unat_of_nat)

lemma n_of_representable:
  "representable TYPE('w::len) (length labels) \<Longrightarrow> n_of TYPE('w) labels = length labels"
  using representable_length [of "length labels", where 'w = 'w]
  by (simp add: n_of_def unat_of_nat_small)

lemma wrap_small: "k < 2 ^ LENGTH('w) \<Longrightarrow> wrap TYPE('w::len) k = k"
  by (simp add: wrap_def)

lemma pairs_bounds: "(i, j) \<in> set (pairs n) \<Longrightarrow> i < j \<and> j < n"
  by (auto simp: pairs_def row_def)

lemma visit_in_visited: "Visit i j k \<in> set es \<Longrightarrow> (i, j) \<in> set (visited es)"
  by (induction es rule: visited.induct) auto

lemma row_start_le:
  assumes "i \<le> n"
  shows "row_start n i \<le> n * (n - 1) div 2"
proof -
  have "[0..<n] = [0..<i] @ [i..<n]"
    using assms by (metis le_add_diff_inverse upt_add_eq_append le0)
  then have "pairs n = concat (map (row n) [0..<i]) @ concat (map (row n) [i..<n])"
    by (simp add: pairs_def)
  then have "length (concat (map (row n) [0..<i])) \<le> length (pairs n)"
    by simp
  then show ?thesis
    by (simp only: length_rows_before [OF assms] length_pairs)
qed

lemma run_example: "run TYPE(64) example_labels = Inr example_final"
  by code_simp

lemma all_equal:
  "\<not> is_nan x \<Longrightarrow> \<forall>a\<in>set (replicate k x). \<forall>b\<in>set (replicate k x). double_eq a b"
  by (simp add: double_eq_def)

lemma last_pair_32:
  "rcpp_comembership TYPE(32) (nan_then_pair 92681) = Inr ((replicate 55607 d_zero)[55606 := d_one])"
proof -
  have "double_eq d_one d_one"
    by (simp add: double_eq_def is_nan_def d_one_def)
  from rcpp_last_pair [OF this, of 92683 92681, where 'w = 32] show ?thesis
    by (simp add: nan_then_pair_def row_start_def)
qed

lemma last_pair_64:
  "rcpp_comembership TYPE(64) (nan_then_pair 6074000999) =
     Inr ((replicate 3327948884 d_zero)[3327948883 := d_one])"
proof -
  have "double_eq d_one d_one"
    by (simp add: double_eq_def is_nan_def d_one_def)
  from rcpp_last_pair [OF this, of 6074001001 6074000999, where 'w = 64] show ?thesis
    by (simp add: nan_then_pair_def row_start_def)
qed

text \<open>
  When \<open>n * (n - 1)\<close> fits in an \<^verbatim>\<open>unsigned long\<close>, where \<open>n\<close> is the number of labels, the
  run ends; this is its final state and its history.
\<close>

lemma run_when_representable:
  assumes "representable TYPE('w::len) (length labels)"
  shows "\<exists>s. run TYPE('w) labels = Inr s \<and>
           cluster_labels s = labels \<and>
           comembership s = map (indicator labels) (pairs (length labels)) \<and>
           unat (idx_comembership s) = length (pairs (length labels)) \<and>
           visited (history s) = pairs (length labels) \<and>
           counters (history s) = [0..<length (pairs (length labels))] \<and>
           row_starts (history s) = map (\<lambda>i. (i, row_start (length labels) i)) [0..<length labels] \<and>
           (\<forall>i. Suc i < length labels \<longrightarrow>
              Visit i (Suc i) (row_start (length labels) i) \<in> set (history s))"
proof -
  let ?n = "length labels"
  let ?N = "length (pairs ?n)"
  from run_ok [OF assms] obtain s where s: "run TYPE('w) labels = Inr s"
    and com: "comembership s = map (indicator labels) (pairs ?n)"
    and idx: "unat (idx_comembership s) = ?n * (?n - 1) div 2"
    by blast
  have n: "n_of TYPE('w) labels = ?n"
    by (rule n_of_representable [OF assms])
  have fits: "?n * (?n - 1) < 2 ^ LENGTH('w)"
    using assms by (simp only: representable_def)
  have N: "?N \<le> ?n * (?n - 1)"
    by (simp only: length_pairs div_le_dividend)
  have small: "wrap TYPE('w) k = k" if "k \<le> ?N" for k
  proof -
    from that N have "k \<le> ?n * (?n - 1)"
      by (rule le_trans)
    then have "k < 2 ^ LENGTH('w)"
      using fits by (rule le_less_trans)
    then show ?thesis
      by (rule wrap_small)
  qed
  have "map (wrap TYPE('w)) [0..<?N] = [0..<?N]"
    by (rule map_idI) (simp add: small)
  then have cnt: "counters (history s) = [0..<?N]"
    using history_order(2) [OF s] by (simp only: n)
  have vis: "visited (history s) = pairs ?n"
    using history_order(1) [OF s] by (simp only: n)
  have start: "wrap TYPE('w) (row_start ?n i) = row_start ?n i" if "i \<le> ?n" for i
    using row_start_le [OF that] by (intro small) (simp only: length_pairs)
  have "map (\<lambda>i. (i, wrap TYPE('w) (row_start ?n i))) [0..<?n] =
      map (\<lambda>i. (i, row_start ?n i)) [0..<?n]"
    by (rule map_cong) (simp_all add: start)
  then have rs: "row_starts (history s) = map (\<lambda>i. (i, row_start ?n i)) [0..<?n]"
    using history_row_starts(1) [OF s] by (simp only: n)
  have first: "Visit i (Suc i) (row_start ?n i) \<in> set (history s)" if "Suc i < ?n" for i
  proof -
    from that have "Visit i (Suc i) (wrap TYPE('w) (row_start ?n i)) \<in> set (history s)"
      using history_row_starts(2) [OF s, of i] by (simp only: n)
    moreover from that have "i \<le> ?n"
      by simp
    ultimately show ?thesis
      by (simp only: start)
  qed
  have "cluster_labels s = labels"
    by (rule run_frame(1) [OF s])
  moreover have "unat (idx_comembership s) = ?N"
    by (simp only: idx length_pairs)
  ultimately show ?thesis
    using s com vis cnt rs first by blast
qed

subsection \<open>Order of the pairs and the running index\<close>






subsection \<open>Relabelling\<close>

lemma ordinary_eq: "ordinary a \<Longrightarrow> ordinary b \<Longrightarrow> double_eq a b \<longleftrightarrow> a = b"
  by (auto simp: ordinary_def double_eq_def is_zero_def)

text \<open>
  Claim C6.  Let \<open>f\<close> rename the label values.  If \<open>f\<close> preserves the equality partition
  of the labels, that is, if two renamed labels compare equal exactly when the two labels
  do, then the routine gives on the renamed labels exactly what it gives on the labels.
  This is so in particular when \<open>f\<close> is injective on the label values, and the labels and
  their new names are ordinary values.
\<close>

theorem relabel_invariance:
  "((\<forall>a\<in>set labels. \<forall>b\<in>set labels. double_eq (f a) (f b) = double_eq a b) \<longrightarrow>
      rcpp_comembership TYPE('w::len) (map f labels) = rcpp_comembership TYPE('w) labels) \<and>
   (inj_on f (set labels) \<and> (\<forall>a\<in>set labels. ordinary a \<and> ordinary (f a)) \<longrightarrow>
      rcpp_comembership TYPE('w) (map f labels) = rcpp_comembership TYPE('w) labels)"
proof (intro conjI impI)
  assume "\<forall>a\<in>set labels. \<forall>b\<in>set labels. double_eq (f a) (f b) = double_eq a b"
  then show "rcpp_comembership TYPE('w) (map f labels) = rcpp_comembership TYPE('w) labels"
    by (rule rcpp_relabel)
next
  assume inj: "inj_on f (set labels) \<and> (\<forall>a\<in>set labels. ordinary a \<and> ordinary (f a))"
  have "double_eq (f a) (f b) = double_eq a b" if "a \<in> set labels" "b \<in> set labels" for a b
    using inj that by (auto simp: ordinary_eq dest: inj_onD)
  then show "rcpp_comembership TYPE('w) (map f labels) = rcpp_comembership TYPE('w) labels"
    by (intro rcpp_relabel) blast
qed

text \<open>
  The theorem at the labels \<open>1, 2, 1, 2\<close> and the relabelling that exchanges 1 and 2:
  the labels become \<open>2, 1, 2, 1\<close> and the result is the same.
\<close>

theorem relabel_invariance_witness:
  "map swap12 example_labels = [d_two, d_one, d_two, d_one] \<and>
   double_eq (swap12 d_one) (swap12 d_two) = double_eq d_one d_two \<and>
   rcpp_comembership TYPE(64) (map swap12 example_labels) = rcpp_comembership TYPE(64) example_labels \<and>
   rcpp_comembership TYPE(64) example_labels = Inr [d_zero, d_one, d_zero, d_zero, d_one, d_zero]"
proof -
  have pres: "\<forall>a\<in>set example_labels. \<forall>b\<in>set example_labels.
      double_eq (swap12 a) (swap12 b) = double_eq a b"
    by (simp add: example_labels_def swap12_def double_eq_def is_nan_def is_zero_def
        d_one_def d_two_def)
  have "rcpp_comembership TYPE(64) example_labels = Inr [d_zero, d_one, d_zero, d_zero, d_one, d_zero]"
    using run_example by (simp add: rcpp_comembership_def example_final_def)
  moreover have "map swap12 example_labels = [d_two, d_one, d_two, d_one]"
    "double_eq (swap12 d_one) (swap12 d_two) = double_eq d_one d_two"
    by (simp_all add: example_labels_def swap12_def double_eq_def is_nan_def is_zero_def
        d_one_def d_two_def)
  ultimately show ?thesis
    using relabel_invariance [of example_labels swap12, where 'w = 64] pres by (simp only: simp_thms)
qed

subsection \<open>Large inputs\<close>

text \<open>
  Claim C2 at an input where it fails: the length of the result is not \<open>n * (n - 1) / 2\<close>
  once \<open>n * (n - 1)\<close> wraps around.  With a 64-bit \<^verbatim>\<open>unsigned long\<close> and 4294967297 NaN
  labels the routine returns 2147483648 zeros, and with a 32-bit one and 65537 NaN labels
  it returns 32768 zeros; in both cases the number of pairs is much larger, and is itself
  less than the largest \<^verbatim>\<open>unsigned long\<close>.
\<close>

theorem length_wraps_around:
  "rcpp_comembership TYPE(64) (replicate 4294967297 qnan) = Inr (replicate 2147483648 d_zero) \<and>
   (2147483648::nat) \<noteq> 4294967297 * (4294967297 - 1) div 2 \<and>
   (4294967297::nat) * (4294967297 - 1) div 2 < 2 ^ 64 \<and>
   rcpp_comembership TYPE(32) (replicate 65537 qnan) = Inr (replicate 32768 d_zero) \<and>
   (32768::nat) \<noteq> 65537 * (65537 - 1) div 2 \<and>
   (65537::nat) * (65537 - 1) div 2 < 2 ^ 32"
proof -
  have "rcpp_comembership TYPE(64) (replicate 4294967297 qnan) = Inr (replicate 2147483648 d_zero)"
    using rcpp_noeq [OF all_nan_unequal, of 4294967297, where 'w = 64] by simp
  moreover have "rcpp_comembership TYPE(32) (replicate 65537 qnan) = Inr (replicate 32768 d_zero)"
    using rcpp_noeq [OF all_nan_unequal, of 65537, where 'w = 32] by simp
  ultimately show ?thesis
    by simp
qed

text \<open>
  What holds of claim C2: when \<open>n * (n - 1)\<close> fits in an \<^verbatim>\<open>unsigned long\<close>, the routine
  returns, without error, a vector of exactly \<open>n * (n - 1) / 2\<close> elements, one for each
  pair \<open>i < j\<close> and none for a pair \<open>(i, i)\<close>; for zero or one label the vector is empty.
\<close>

lemma length_when_representable:
  assumes "representable TYPE('w::len) (length labels)"
  shows "\<exists>out. rcpp_comembership TYPE('w) labels = Inr out \<and>
           length out = length labels * (length labels - 1) div 2 \<and>
           length out = length (pairs (length labels)) \<and>
           (\<forall>p\<in>set (pairs (length labels)). fst p < snd p \<and> snd p < length labels)"
proof -
  have "\<forall>p\<in>set (pairs (length labels)). fst p < snd p \<and> snd p < length labels"
    by (auto simp: pairs_def row_def)
  then show ?thesis
    by (simp add: rcpp_ok [OF assms] length_pairs)
qed

lemma empty_and_singleton:
  "rcpp_comembership TYPE('w::len) [] = Inr []" "rcpp_comembership TYPE('w::len) [x] = Inr []"
  using rcpp_ok [of "[]", where 'w = 'w] rcpp_ok [of "[x]", where 'w = 'w]
  by (simp_all add: representable_def pairs_def row_def)

text \<open>
  Claim C5 at an input where it fails: no overflow is detected.  With a 32-bit
  \<^verbatim>\<open>unsigned long\<close> and 92683 NaN labels the number of pairs, 4295022903, is larger than
  any \<^verbatim>\<open>unsigned long\<close>; the routine reports nothing and returns 55607 zeros.  With a
  64-bit one and 6074001001 NaN labels it returns 3327948884 zeros in the same way.
\<close>

theorem overflow_not_detected:
  "(2::nat) ^ 32 \<le> 92683 * (92683 - 1) div 2 \<and>
   rcpp_comembership TYPE(32) (replicate 92683 qnan) = Inr (replicate 55607 d_zero) \<and>
   (2::nat) ^ 64 \<le> 6074001001 * (6074001001 - 1) div 2 \<and>
   rcpp_comembership TYPE(64) (replicate 6074001001 qnan) = Inr (replicate 3327948884 d_zero)"
proof -
  have "rcpp_comembership TYPE(32) (replicate 92683 qnan) = Inr (replicate 55607 d_zero)"
    using rcpp_noeq [OF all_nan_unequal, of 92683, where 'w = 32] by simp
  moreover have "rcpp_comembership TYPE(64) (replicate 6074001001 qnan) = Inr (replicate 3327948884 d_zero)"
    using rcpp_noeq [OF all_nan_unequal, of 6074001001, where 'w = 64] by simp
  ultimately show ?thesis
    by simp
qed

text \<open>
  Whatever the input, the only way in which the routine fails is an access out of bounds
  during the loops; a vector it returns has the length computed with wrap-around.
\<close>

lemma returned_length:
  assumes "rcpp_comembership TYPE('w::len) labels = Inr out"
  shows "length out =
    unat ((of_nat (length labels) :: 'w word) * (of_nat (length labels) - 1) div 2)"
proof (cases "run TYPE('w) labels")
  case (Inl e)
  with assms show ?thesis
    by (simp add: rcpp_comembership_def)
next
  case (Inr s)
  with assms run_frame(2) [OF Inr] show ?thesis
    by (auto simp: rcpp_comembership_def)
qed

text \<open>
  Claim C9 at an input where it fails: a write outside the output vector.  With a 32-bit
  \<^verbatim>\<open>unsigned long\<close> and 65537 equal labels the vector has 32768 elements, every pair of
  the first row is a comember, and the write for the pair \<open>(0, 32769)\<close> is at index 32768.
  With a 64-bit one and 4294967297 equal labels the vector has 2147483648 elements and the
  same happens at the pair \<open>(0, 2147483649)\<close>.
\<close>

theorem write_out_of_bounds:
  "run TYPE(32) (replicate 65537 d_one) = Inl OutOfBounds \<and>
   run TYPE(64) (replicate 4294967297 d_one) = Inl OutOfBounds"
proof
  show "run TYPE(32) (replicate 65537 d_one) = Inl OutOfBounds"
    by (rule run_all_equal_oob [OF all_one_equal]) simp
  show "run TYPE(64) (replicate 4294967297 d_one) = Inl OutOfBounds"
    by (rule run_all_equal_oob [OF all_one_equal]) simp
qed

text \<open>
  What holds of claim C9: when \<open>n * (n - 1)\<close> fits in an \<^verbatim>\<open>unsigned long\<close>, the run ends
  without an access out of bounds, every position \<open>0, \<dots>, n * (n - 1) / 2 - 1\<close> of the
  output vector is the running index of exactly one visit, and at the end the running
  index is the length of the output vector, \<open>n * (n - 1) / 2\<close>.
\<close>

lemma in_bounds_when_representable:
  assumes "representable TYPE('w::len) (length labels)"
  shows "\<exists>s. run TYPE('w) labels = Inr s \<and>
           counters (history s) = [0..<length (comembership s)] \<and>
           unat (idx_comembership s) = length (comembership s) \<and>
           length (comembership s) = length labels * (length labels - 1) div 2"
proof -
  let ?N = "length labels * (length labels - 1) div 2"
  from run_ok [OF assms] obtain s where s: "run TYPE('w) labels = Inr s"
    and com: "comembership s = map (indicator labels) (pairs (length labels))"
    and idx: "unat (idx_comembership s) = ?N"
    by blast
  have len: "length (comembership s) = ?N"
    by (simp only: com length_map length_pairs)
  have n: "n_of TYPE('w) labels = length labels"
    by (rule n_of_representable [OF assms])
  have fits: "length labels * (length labels - 1) < 2 ^ LENGTH('w)"
    using assms by (simp only: representable_def)
  have "wrap TYPE('w) k = k" if "k \<in> set [0..<?N]" for k
  proof -
    from that have "k < ?N"
      by simp
    also have "?N \<le> length labels * (length labels - 1)"
      by (rule div_le_dividend)
    finally have "k < 2 ^ LENGTH('w)"
      using fits by (rule less_trans)
    then show ?thesis
      by (rule wrap_small)
  qed
  then have "map (wrap TYPE('w)) [0..<?N] = [0..<?N]"
    by (rule map_idI)
  moreover have "counters (history s) = map (wrap TYPE('w)) [0..<?N]"
    using history_order(2) [OF s] by (simp only: n length_pairs)
  ultimately have "counters (history s) = [0..<length (comembership s)]"
    by (simp only: len)
  with s len idx show ?thesis
    by (intro exI [of _ s] conjI) (simp_all only:)
qed

subsection \<open>Large inputs: the values of the elements\<close>

text \<open>
  Claim C1 at inputs where it fails.  With a 32-bit \<^verbatim>\<open>unsigned long\<close> and 65537 NaN
  labels the vector returned has 32768 elements, and the pair \<open>(0, 40000)\<close>, whose linear
  index is 39999, has no element in it.  With a 64-bit \<^verbatim>\<open>unsigned long\<close> and 6074000999
  NaN labels followed by two labels \<^verbatim>\<open>1.0\<close>, the labels at the positions 0 and 3327948884
  are NaNs and do not compare equal, and the element at the linear index of that pair,
  3327948883, is \<^verbatim>\<open>1.0\<close>: the running index has wrapped around, and the write for the last
  pair went there.
\<close>

theorem pair_element_wrong:
  "(0::nat) < 40000 \<and> 40000 < length (replicate 65537 qnan) \<and>
   \<not> pair_element_is TYPE(32) (replicate 65537 qnan) 0 40000
       (if double_eq (replicate 65537 qnan ! 0) (replicate 65537 qnan ! 40000) then d_one else d_zero) \<and>
   (0::nat) < 3327948884 \<and> 3327948884 < length (nan_then_pair 6074000999) \<and>
   \<not> double_eq (nan_then_pair 6074000999 ! 0) (nan_then_pair 6074000999 ! 3327948884) \<and>
   pair_element_is TYPE(64) (nan_then_pair 6074000999) 0 3327948884 d_one \<and>
   d_one \<noteq> d_zero"
proof -
  have "rcpp_comembership TYPE(32) (replicate 65537 qnan) = Inr (replicate 32768 d_zero)"
    using rcpp_noeq [OF all_nan_unequal, of 65537, where 'w = 32] by simp
  then have a: "\<not> pair_element_is TYPE(32) (replicate 65537 qnan) 0 40000
       (if double_eq (replicate 65537 qnan ! 0) (replicate 65537 qnan ! 40000) then d_one else d_zero)"
    by (simp add: pair_element_is_def pair_index_def)
  have b: "pair_element_is TYPE(64) (nan_then_pair 6074000999) 0 3327948884 d_one"
    by (simp add: pair_element_is_def last_pair_64) (simp add: nan_then_pair_def pair_index_def)
  have c: "\<not> double_eq (nan_then_pair 6074000999 ! 0) (nan_then_pair 6074000999 ! 3327948884)"
    by (simp add: nan_then_pair_def nth_append double_eq_def is_nan_def qnan_def)
  have d: "d_one \<noteq> d_zero"
    by (simp add: d_one_def d_zero_def)
  from a b c d show ?thesis
    by (simp add: nan_then_pair_def)
qed

text \<open>
  What holds of claim C1: when \<open>n * (n - 1)\<close> fits in an \<^verbatim>\<open>unsigned long\<close>, the routine
  returns a vector, and for every pair of positions \<open>i < j < n\<close> the element at the linear
  index of the pair, \<open>pair_index n i j\<close>, which is the position of \<open>(i, j)\<close> in the
  enumeration \<open>pairs n\<close>, is \<^verbatim>\<open>1.0\<close> if \<^verbatim>\<open>labels[i] == labels[j]\<close> and \<^verbatim>\<open>0.0\<close> otherwise.
\<close>

lemma pair_element_when_representable:
  assumes "representable TYPE('w::len) (length labels)" and "i < j" and "j < length labels"
  shows "pair_element_is TYPE('w) labels i j
           (if double_eq (labels ! i) (labels ! j) then d_one else d_zero) \<and>
         pairs (length labels) ! pair_index (length labels) i j = (i, j)"
proof -
  let ?n = "length labels"
  have idx: "pair_index ?n i j < length (pairs ?n)" and nth: "pairs ?n ! pair_index ?n i j = (i, j)"
    using pairs_nth [OF assms(2,3)] by simp_all
  then have "map (indicator labels) (pairs ?n) ! pair_index ?n i j = indicator labels (i, j)"
    by simp
  with idx nth show ?thesis
    by (simp add: pair_element_is_def rcpp_ok [OF assms(1)] indicator_def)
qed

text \<open>
  Claim C4 at an input where it fails.  With a 32-bit \<^verbatim>\<open>unsigned long\<close> and 92681 NaN
  labels followed by two labels \<^verbatim>\<open>1.0\<close>, there are 4295022903 pairs and the vector has
  55607 elements.  The last pair is the only one of equal labels; the running index has
  wrapped around when it is visited, and its \<^verbatim>\<open>1.0\<close> is written at index 55606, the position
  of the pair \<open>(0, 55607)\<close>, whose labels are two NaNs and do not compare equal.
\<close>

theorem one_at_unequal_pair:
  "rcpp_comembership TYPE(32) (nan_then_pair 92681) = Inr ((replicate 55607 d_zero)[55606 := d_one]) \<and>
   (replicate 55607 d_zero)[55606 := d_one] ! 55606 = d_one \<and>
   length (nan_then_pair 92681) = 92683 \<and>
   pairs 92683 ! 55606 = (0, 55607) \<and>
   \<not> double_eq (nan_then_pair 92681 ! 0) (nan_then_pair 92681 ! 55607)"
proof -
  have "pair_index 92683 0 55607 = 55606"
    by (simp add: pair_index_def)
  with pairs_nth(2) [of 0 55607 92683] have "pairs 92683 ! 55606 = (0, 55607)"
    by simp
  moreover have "\<not> double_eq (nan_then_pair 92681 ! 0) (nan_then_pair 92681 ! 55607)"
    by (simp add: nan_then_pair_def nth_append double_eq_def is_nan_def qnan_def)
  moreover have "length (nan_then_pair 92681) = 92683"
    by (simp add: nan_then_pair_def)
  moreover have "(replicate 55607 d_zero)[55606 := d_one] ! 55606 = d_one"
    by simp
  ultimately show ?thesis
    using last_pair_32 by (simp only: simp_thms)
qed

text \<open>
  What holds of claim C4.  Whenever the routine returns, every element of the vector is
  \<^verbatim>\<open>0.0\<close> or \<^verbatim>\<open>1.0\<close>; the vector starts as all \<^verbatim>\<open>0.0\<close>, and an element at index \<open>k\<close> is \<^verbatim>\<open>1.0\<close>
  only if the inner loop visited, with the running index at \<open>k\<close>, a pair of positions
  \<open>i < j\<close> whose labels compare equal.  When \<open>n * (n - 1)\<close> fits in an \<^verbatim>\<open>unsigned long\<close>,
  that pair is the \<open>k\<close>-th pair.
\<close>

lemma elements_zero_or_one:
  assumes "run TYPE('w::len) labels = Inr s"
  shows "rcpp_comembership TYPE('w) labels = Inr (comembership s) \<and>
         (\<forall>x\<in>set (comembership (initial TYPE('w) labels)). x = d_zero) \<and>
         (\<forall>k<length (comembership s).
            comembership s ! k = d_zero \<or>
            comembership s ! k = d_one \<and>
            (\<exists>i j. i < j \<and> j < length labels \<and> Visit i j k \<in> set (history s) \<and>
                   double_eq (labels ! i) (labels ! j)))"
proof -
  have bounds: "i < j \<and> j < length labels" if "Visit i j k \<in> set (history s)" for i j k
  proof -
    from that have "(i, j) \<in> set (pairs (n_of TYPE('w) labels))"
      using visit_in_visited history_order(1) [OF assms] by metis
    then show ?thesis
      using pairs_bounds n_of_le [of labels, where 'w = 'w] by fastforce
  qed
  have "comembership s ! k = d_zero \<or>
        comembership s ! k = d_one \<and>
        (\<exists>i j. i < j \<and> j < length labels \<and> Visit i j k \<in> set (history s) \<and>
               double_eq (labels ! i) (labels ! j))"
    if "k < length (comembership s)" for k
    using run_justified [OF assms] that bounds unfolding justified_def by blast
  moreover have "\<forall>x\<in>set (comembership (initial TYPE('w) labels)). x = d_zero"
    by (simp add: initial_def Let_def)
  moreover have "rcpp_comembership TYPE('w) labels = Inr (comembership s)"
    using assms by (simp add: rcpp_comembership_def)
  ultimately show ?thesis
    by blast
qed

lemma elements_when_representable:
  assumes "representable TYPE('w::len) (length labels)"
  shows "\<exists>out. rcpp_comembership TYPE('w) labels = Inr out \<and>
           length out = length (pairs (length labels)) \<and>
           (\<forall>k<length out.
              out ! k = indicator labels (pairs (length labels) ! k) \<and>
              (out ! k = d_zero \<or> out ! k = d_one))"
  by (simp add: rcpp_ok [OF assms] indicator_def)

text \<open>
  Claim C10 at an input where it fails.  With a 32-bit \<^verbatim>\<open>unsigned long\<close> and 92681 NaN
  labels followed by two labels \<^verbatim>\<open>1.0\<close>, the labels at the positions 0 and 55607 are both
  NaNs, and the element of the output for that pair, at index 55606, is \<^verbatim>\<open>1.0\<close>.
\<close>

theorem nan_pair_gets_one:
  "(0::nat) < 55607 \<and> 55607 < length (nan_then_pair 92681) \<and>
   is_nan (nan_then_pair 92681 ! 0) \<and> is_nan (nan_then_pair 92681 ! 55607) \<and>
   pair_element_is TYPE(32) (nan_then_pair 92681) 0 55607 d_one \<and>
   \<not> pair_element_is TYPE(32) (nan_then_pair 92681) 0 55607 d_zero"
proof -
  have idx: "pair_index (length (nan_then_pair 92681)) 0 55607 = 55606"
    by (simp add: pair_index_def nan_then_pair_def)
  have ne: "d_one \<noteq> d_zero"
    by (simp add: d_one_def d_zero_def)
  have "pair_element_is TYPE(32) (nan_then_pair 92681) 0 55607 d_one"
    "\<not> pair_element_is TYPE(32) (nan_then_pair 92681) 0 55607 d_zero"
    using ne by (simp_all add: pair_element_is_def last_pair_32 idx)
  moreover have "is_nan (nan_then_pair 92681 ! 0)" "is_nan (nan_then_pair 92681 ! 55607)"
    by (simp_all add: nan_then_pair_def nth_append is_nan_def qnan_def)
  moreover have "55607 < length (nan_then_pair 92681)"
    by (simp add: nan_then_pair_def)
  ultimately show ?thesis
    by simp
qed

text \<open>
  What holds of claim C10: when \<open>n * (n - 1)\<close> fits in an \<^verbatim>\<open>unsigned long\<close> and the label
  at position \<open>i\<close> or the label at position \<open>j\<close> is a NaN, and so in particular when both
  are, even with the same bits, the two labels do not compare equal and the element of the
  output for the pair \<open>(i, j)\<close> is \<^verbatim>\<open>0.0\<close>.
\<close>

lemma nan_pair_is_zero:
  assumes "representable TYPE('w::len) (length labels)" and "i < j" and "j < length labels"
    and "is_nan (labels ! i) \<or> is_nan (labels ! j)"
  shows "\<not> double_eq (labels ! i) (labels ! j) \<and> pair_element_is TYPE('w) labels i j d_zero"
proof -
  let ?n = "length labels"
  have ne: "\<not> double_eq (labels ! i) (labels ! j)"
    by (rule nan_never_equal [OF assms(4)])
  have idx: "pair_index ?n i j < length (pairs ?n)" and nth: "pairs ?n ! pair_index ?n i j = (i, j)"
    using pairs_nth [OF assms(2,3)] by simp_all
  then have "map (indicator labels) (pairs ?n) ! pair_index ?n i j = indicator labels (i, j)"
    by simp
  with idx ne show ?thesis
    by (simp add: pair_element_is_def rcpp_ok [OF assms(1)] indicator_def)
qed

subsection \<open>Large inputs: effects\<close>

text \<open>
  Claim C7 at an input where it fails.  With a 32-bit \<^verbatim>\<open>unsigned long\<close> and 65537 labels
  \<^verbatim>\<open>2.0\<close>, or a 64-bit one and 4294967297 of them, the routine stores a \<^verbatim>\<open>1.0\<close> outside
  its output vector: it changes memory that is not the buffer it allocated, and returns
  nothing that is defined.
\<close>

theorem write_outside_the_output:
  "rcpp_comembership TYPE(32) (replicate 65537 d_two) = Inl OutOfBounds \<and>
   rcpp_comembership TYPE(64) (replicate 4294967297 d_two) = Inl OutOfBounds"
proof -
  have two: "\<not> is_nan d_two"
    by (simp add: is_nan_def d_two_def)
  have "run TYPE(32) (replicate 65537 d_two) = Inl OutOfBounds"
    by (rule run_all_equal_oob [OF all_equal [OF two]]) simp
  moreover have "run TYPE(64) (replicate 4294967297 d_two) = Inl OutOfBounds"
    by (rule run_all_equal_oob [OF all_equal [OF two]]) simp
  ultimately show ?thesis
    by (simp add: rcpp_comembership_def)
qed

text \<open>
  What holds of claim C7: when \<open>n * (n - 1)\<close> fits in an \<^verbatim>\<open>unsigned long\<close>, the run ends,
  every access is inside the label vector or the output vector, the label vector is at
  the end what it was on entry, and what is returned is the output vector.
\<close>

lemma pure_when_representable:
  assumes "representable TYPE('w::len) (length labels)"
  shows "\<exists>s. run TYPE('w) labels = Inr s \<and> cluster_labels s = labels \<and>
           rcpp_comembership TYPE('w) labels = Inr (comembership s)"
proof -
  from run_when_representable [OF assms] obtain s where "run TYPE('w) labels = Inr s"
    and "cluster_labels s = labels"
    by blast
  then show ?thesis
    by (auto simp: rcpp_comembership_def)
qed

end
